theory Spec2Isabelle
  imports Main "HOL-Library.AList"
begin

section \<open>payu.manifest: data model\<close>

text \<open>
  A manifest document (\<^verbatim>\<open>self.data\<close>) is a Python dictionary from a relative file path to
  an entry
  \<^verbatim>\<open>{'fullpath': ..., 'hashes': {kind: digest-or-None}, 'copy': ...}\<close>.
  Dictionaries keep their insertion order, which is also the order in which the document is
  iterated and written out, so they are association lists here: \<open>map_of\<close> reads a key,
  \<open>AList.update\<close> assigns one (in place when the key exists, appended otherwise).  The
  \<^verbatim>\<open>'copy'\<close> key is optional in an entry, the other two are always there.
\<close>

type_synonym hashdict = "(string \<times> string option) list"

record filerec =
  fullpath :: string
  hashes :: hashdict
  copy :: "bool option"

type_synonym document = "(string \<times> filerec) list"

record payu_manifest =
  path :: string
  header :: "(string \<times> string) list"
  data :: document
  ignore :: "string list"

datatype py_error = KeyError | IOError

definition fast_hashes :: "string list" where
  "fast_hashes = [''binhash'']"

definition full_hashes :: "string list" where
  "full_hashes = [''md5'']"

definition all_hashes :: "string list" where
  "all_hashes = fast_hashes @ full_hashes"

text \<open>Subscripting a dictionary raises \<^verbatim>\<open>KeyError\<close> on a missing key.\<close>

definition getitem :: "('k \<times> 'v) list \<Rightarrow> 'k \<Rightarrow> py_error + 'v" where
  "getitem d k = (case map_of d k of None \<Rightarrow> Inl KeyError | Some v \<Rightarrow> Inr v)"

definition getitem_copy :: "filerec \<Rightarrow> py_error + bool" where
  "getitem_copy r = (case copy r of None \<Rightarrow> Inl KeyError | Some b \<Rightarrow> Inr b)"

subsection \<open>\<^verbatim>\<open>PayuManifest.copy_file\<close>\<close>

text \<open>
  \<^verbatim>\<open>
  copy_file = False
  try:
      copy_file = self.data[filepath]['copy']
  except KeyError:
      return False
  return copy_file
  \<close>
  Only \<^verbatim>\<open>KeyError\<close> is caught; any other exception of the two subscripts would leave the
  function.
\<close>

definition copy_file :: "payu_manifest \<Rightarrow> string \<Rightarrow> py_error + bool" where
  "copy_file m filepath =
     (case (case getitem (data m) filepath of Inl e \<Rightarrow> Inl e | Inr r \<Rightarrow> getitem_copy r) of
        Inl KeyError \<Rightarrow> Inr False
      | Inl e \<Rightarrow> Inl e
      | Inr b \<Rightarrow> Inr b)"

subsection \<open>\<^verbatim>\<open>PayuManifest.add_filepath\<close>\<close>

text \<open>
  \<^verbatim>\<open>os.path.basename(p)\<close> is \<^verbatim>\<open>p[p.rfind('/') + 1:]\<close>.  \<^verbatim>\<open>rfind\<close> gives the index of the
  last occurrence, or \<open>-1\<close>.
\<close>

definition rfind :: "string \<Rightarrow> char \<Rightarrow> int" where
  "rfind s c =
     (if c \<in> set s then int (length s) - 1 - int (length (takeWhile (\<lambda>x. x \<noteq> c) (rev s)))
      else - 1)"

definition basename :: "string \<Rightarrow> string" where
  "basename p = drop (nat (rfind p (CHR ''/'') + 1)) p"

text \<open>
  The file system query \<^verbatim>\<open>os.path.isdir\<close> and the glob matcher \<^verbatim>\<open>fnmatch.fnmatch\<close> are
  library functions outside the repository; they are the parameters \<open>isdir\<close> and
  \<open>fnmatch\<close>.  The loop over \<^verbatim>\<open>self.ignore\<close> returns at the first pattern that matches;
  the manifest has its list of patterns, as every manifest that \<^verbatim>\<open>Manifest.__init__\<close>
  constructs has.
  The function has no \<^verbatim>\<open>raise\<close> and no subscript that can fail: every read of
  \<^verbatim>\<open>self.data[filepath]\<close> comes after the entry has been created.
\<close>

fun ignored :: "(string \<Rightarrow> string \<Rightarrow> bool) \<Rightarrow> string \<Rightarrow> string list \<Rightarrow> bool" where
  "ignored fnmatch name [] = False"
| "ignored fnmatch name (pattern # patterns) =
     (if fnmatch name pattern then True else ignored fnmatch name patterns)"

definition add_filepath ::
  "(string \<Rightarrow> bool) \<Rightarrow> (string \<Rightarrow> string \<Rightarrow> bool) \<Rightarrow>
   payu_manifest \<Rightarrow> string \<Rightarrow> string \<Rightarrow> bool \<Rightarrow> payu_manifest" where
  "add_filepath isdir fnmatch m filepath fp cp =
     (if isdir fp then m
      else if ignored fnmatch (basename fp) (ignore m) then m
      else
        let r0 = (case map_of (data m) filepath of
                    None \<Rightarrow> \<lparr>fullpath = fp, hashes = map (\<lambda>h. (h, None)) all_hashes, copy = None\<rparr>
                  | Some r \<Rightarrow> r\<lparr>fullpath := fp\<rparr>);
            r1 = (if cp then r0\<lparr>copy := Some cp\<rparr> else r0)
        in m\<lparr>data := AList.update filepath r1 (data m)\<rparr>)"

section \<open>Hash verification\<close>

subsection \<open>The collaborators of \<^verbatim>\<open>check_fast\<close>\<close>

text \<open>
  The hashing primitive is outside the repository.  It is the parameter \<open>H\<close>: \<open>H kind fp\<close>
  is the digest of kind \<open>kind\<close> of the file at \<open>fp\<close> as it is now, or \<open>None\<close> when that
  kind cannot be computed for the file.  The file contents do not change while a check runs,
  so \<open>H\<close> is fixed.
\<close>

type_synonym hasher = "string \<Rightarrow> string \<Rightarrow> string option"

type_synonym hashvals = "(string \<times> (string \<times> string) list) list"

text \<open>Everything that is printed, one constructor per \<^verbatim>\<open>print\<close> or \<^verbatim>\<open>write\<close> statement, with
  the arguments of its format string.  \<^verbatim>\<open>print\<close> writes to the standard output;
  \<open>CannotReproduce\<close> is the one message that is written to \<^verbatim>\<open>sys.stderr\<close> (line 71).\<close>

datatype msg =
    CheckFailed string "(string \<times> string) list"
  | FullHashesOk "string list"
  | UpdatingFast string string
  | SavingUpdated
  | CannotReproduce string
  | DiagPath string
  | DiagHash string string "string option"
  | UpdatingFull nat string
  | Writing string
  | LoadingInput string
  | LoadingExe string
  | LoadingRestart string
  | RestartEmpty
  | InputEmpty
  | ExeEmpty

text \<open>
  The world around a manifest object: the manifest files on disk (\<open>fs\<close>, from a path to the
  header and data last written there), the working area that link materialisation fills
  (\<open>links\<close>), the environment variables and what has been written so far to the standard
  output and to the standard error stream.
\<close>

datatype link = LinkTo string | CopyOf string

record world =
  fs :: "string \<Rightarrow> ((string \<times> string) list \<times> document) option"
  links :: "(string \<times> link) list"
  environ :: "string \<Rightarrow> string option"
  stdout :: "msg list"
  stderr :: "msg list"

definition print :: "msg \<Rightarrow> world \<Rightarrow> world" where
  "print x w = w\<lparr>stdout := stdout w @ [x]\<rparr>"

definition stderr_write :: "msg \<Rightarrow> world \<Rightarrow> world" where
  "stderr_write x w = w\<lparr>stderr := stderr w @ [x]\<rparr>"

text \<open>A call returns, or the process exits (\<^verbatim>\<open>sys.exit\<close>), or an exception leaves the call.\<close>

datatype 'a outcome = Returned 'a | Exited int 'a | Raised py_error 'a

text \<open>\<^verbatim>\<open>d.get(h, None)\<close> on a dictionary of digests.\<close>

definition get_hash :: "hashdict \<Rightarrow> string \<Rightarrow> string option" where
  "get_hash hdict h = (case map_of hdict h of None \<Rightarrow> None | Some v \<Rightarrow> v)"

text \<open>
  Modelled from the spec: \<^verbatim>\<open>check_file\<close> and \<^verbatim>\<open>add\<close> of the base class
  \<^verbatim>\<open>yamanifest.manifest.Manifest\<close>, which is not part of the sources.

  The digests computed for one file: the kinds of \<open>hashfn\<close> in order, leaving out a kind that
  cannot be computed, and with \<open>shortcircuit\<close> stopping after the first kind that can.
\<close>

fun compute_hashes :: "hasher \<Rightarrow> string \<Rightarrow> string list \<Rightarrow> bool \<Rightarrow> (string \<times> string) list" where
  "compute_hashes H fp [] shortcircuit = []"
| "compute_hashes H fp (fn # fns) shortcircuit =
     (case H fn fp of
        None \<Rightarrow> compute_hashes H fp fns shortcircuit
      | Some v \<Rightarrow> (fn, v) # (if shortcircuit then [] else compute_hashes H fp fns shortcircuit))"

text \<open>Modelled from the spec: a path passes a check when every digest computed for it equals
  the stored one; a stored \<^verbatim>\<open>None\<close>, or no stored entry, is a mismatch.\<close>

definition hashes_agree :: "hashdict \<Rightarrow> (string \<times> string) list \<Rightarrow> bool" where
  "hashes_agree stored computed = list_all (\<lambda>(h, v). get_hash stored h = Some v) computed"

text \<open>
  Modelled from the spec: \<^verbatim>\<open>check_file(filepaths, hashvals, hashfn, shortcircuit)\<close> recomputes
  the digests of the requested paths, enters each path that does not agree with its stored
  digests into the dictionary \<^verbatim>\<open>hashvals\<close> together with the digests just observed, and
  returns whether every path agreed.  Both calls in \<^verbatim>\<open>check_fast\<close> pass a fresh empty
  dictionary, so the model returns the dictionary beside the result.  Every requested path is a
  key of the document there; a path that is not a key is passed over.
\<close>

fun check_paths ::
  "hasher \<Rightarrow> document \<Rightarrow> string list \<Rightarrow> string list \<Rightarrow> bool \<Rightarrow> hashvals \<Rightarrow> hashvals" where
  "check_paths H d [] hashfn shortcircuit hv = hv"
| "check_paths H d (p # ps) hashfn shortcircuit hv =
     (case map_of d p of
        None \<Rightarrow> check_paths H d ps hashfn shortcircuit hv
      | Some r \<Rightarrow>
          (let hs = compute_hashes H (fullpath r) hashfn shortcircuit
           in check_paths H d ps hashfn shortcircuit
                (if hashes_agree (hashes r) hs then hv else AList.update p hs hv)))"

definition check_file ::
  "hasher \<Rightarrow> payu_manifest \<Rightarrow> string list \<Rightarrow> string list \<Rightarrow> bool \<Rightarrow> bool \<times> hashvals" where
  "check_file H m filepaths hashfn shortcircuit =
     (let hv = check_paths H (data m) filepaths hashfn shortcircuit [] in (hv = [], hv))"

text \<open>
  Modelled from the spec: \<^verbatim>\<open>add(filepaths, hashfn, force, shortcircuit)\<close> computes the
  requested kinds for paths already in the document and stores them.  A digest that is already
  stored is overwritten only with \<open>force\<close>; a kind that cannot be computed leaves the entry
  as it is; \<open>shortcircuit\<close> stops after the first kind stored.
\<close>

fun add_hashes :: "hasher \<Rightarrow> string \<Rightarrow> string list \<Rightarrow> bool \<Rightarrow> bool \<Rightarrow> hashdict \<Rightarrow> hashdict" where
  "add_hashes H fp [] force shortcircuit hdict = hdict"
| "add_hashes H fp (fn # fns) force shortcircuit hdict =
     (if \<not> force \<and> get_hash hdict fn \<noteq> None then add_hashes H fp fns force shortcircuit hdict
      else case H fn fp of
        None \<Rightarrow> add_hashes H fp fns force shortcircuit hdict
      | Some v \<Rightarrow>
          (let hdict' = AList.update fn (Some v) hdict
           in if shortcircuit then hdict' else add_hashes H fp fns force shortcircuit hdict'))"

fun add ::
  "hasher \<Rightarrow> document \<Rightarrow> string list \<Rightarrow> string list \<Rightarrow> bool \<Rightarrow> bool \<Rightarrow> document" where
  "add H d [] hashfn force shortcircuit = d"
| "add H d (p # ps) hashfn force shortcircuit =
     (case map_of d p of
        None \<Rightarrow> add H d ps hashfn force shortcircuit
      | Some r \<Rightarrow>
          add H (AList.update p
                   (r\<lparr>hashes := add_hashes H (fullpath r) hashfn force shortcircuit (hashes r)\<rparr>) d)
            ps hashfn force shortcircuit)"

subsection \<open>\<^verbatim>\<open>PayuManifest.add_fast\<close> and \<^verbatim>\<open>PayuManifest.dump\<close>\<close>

text \<open>\<^verbatim>\<open>self.add(filepath, hashfn, force, shortcircuit=True)\<close>, for the one path given.\<close>

definition add_fast :: "hasher \<Rightarrow> payu_manifest \<Rightarrow> string \<Rightarrow> string list \<Rightarrow> bool \<Rightarrow> payu_manifest" where
  "add_fast H m filepath hashfn force = m\<lparr>data := add H (data m) [filepath] hashfn force True\<rparr>"

text \<open>
  \<^verbatim>\<open>self.header['githash'] = get_git_revision_hash()\<close>, then \<^verbatim>\<open>dump\<close> of the base class.
  The revision string is the parameter \<open>githash\<close>.

  Modelled from the spec: \<^verbatim>\<open>dump\<close> of the base class writes the header and the data of the
  object to \<^verbatim>\<open>self.path\<close>.
\<close>

definition dump :: "string \<Rightarrow> payu_manifest \<times> world \<Rightarrow> payu_manifest \<times> world" where
  "dump githash mw =
     (case mw of (m, w) \<Rightarrow>
        let m' = m\<lparr>header := AList.update ''githash'' githash (header m)\<rparr>
        in (m', w\<lparr>fs := (fs w)(path m' \<mapsto> (header m', data m'))\<rparr>))"

subsection \<open>\<^verbatim>\<open>PayuManifest.check_fast\<close>\<close>

text \<open>
  Lines 55 to 57: every digest observed by the fast check is stored in the entry of its path,
  \<^verbatim>\<open>self.data[filepath]["hashes"][hash] = val\<close>.  The paths of \<^verbatim>\<open>hashvals\<close> are keys of the
  document.
\<close>

definition save_hashes :: "(string \<times> string) list \<Rightarrow> hashdict \<Rightarrow> hashdict" where
  "save_hashes hs hdict = fold (\<lambda>(h, v). AList.update h (Some v)) hs hdict"

fun save_hashvals :: "hashvals \<Rightarrow> document \<Rightarrow> document" where
  "save_hashvals [] d = d"
| "save_hashvals ((filepath, hs) # rest) d =
     save_hashvals rest
       (case map_of d filepath of
          None \<Rightarrow> d
        | Some r \<Rightarrow> AList.update filepath (r\<lparr>hashes := save_hashes hs (hashes r)\<rparr>) d)"

text \<open>
  Lines 72 to 75: for every path of \<^verbatim>\<open>tmphash\<close> a line with the path, then for every digest
  observed a line with the kind, the digest and
  \<^verbatim>\<open>self.data[path]['hashes'].get(hash, None)\<close>.
\<close>

definition stored_hash :: "payu_manifest \<Rightarrow> string \<Rightarrow> string \<Rightarrow> string option" where
  "stored_hash m p h = (case map_of (data m) p of None \<Rightarrow> None | Some r \<Rightarrow> get_hash (hashes r) h)"

definition diagnostics :: "payu_manifest \<Rightarrow> hashvals \<Rightarrow> msg list" where
  "diagnostics m tmphash =
     concat (map (\<lambda>(p, hashdict). DiagPath p # map (\<lambda>(h, v). DiagHash h v (stored_hash m p h)) hashdict)
               tmphash)"

text \<open>
  Lines 60 to 76, the loop \<^verbatim>\<open>for filepath in hashvals\<close> of the reproduce branch.  A path
  whose full hashes agree has its fast hashes added again with \<^verbatim>\<open>force=True\<close> and the
  manifest is dumped; the first path whose full hashes do not agree prints the diagnostics and
  ends the process with \<^verbatim>\<open>sys.exit(1)\<close>.  The full check and \<^verbatim>\<open>add_fast\<close> are given the
  path itself, which stands for the list of this one path.
\<close>

fun reproduce_loop ::
  "hasher \<Rightarrow> string \<Rightarrow> hashvals \<Rightarrow> payu_manifest \<times> world \<Rightarrow> (payu_manifest \<times> world) outcome" where
  "reproduce_loop H githash [] mw = Returned mw"
| "reproduce_loop H githash ((filepath, hs) # rest) (m, w) =
     (let w1 = print (CheckFailed filepath hs) w;
          (ok, tmphash) = check_file H m [filepath] full_hashes False
      in if ok then
           let w2 = print (FullHashesOk full_hashes) w1;
               w3 = print (UpdatingFast filepath (path m)) w2;
               m1 = add_fast H m filepath fast_hashes True;
               w4 = print SavingUpdated w3
           in reproduce_loop H githash rest (dump githash (m1, w4))
         else
           let w2 = stderr_write (CannotReproduce (path m)) w1;
               w3 = w2\<lparr>stdout := stdout w2 @ diagnostics m tmphash\<rparr>
           in Exited 1 (m, w3))"

definition check_fast ::
  "hasher \<Rightarrow> string \<Rightarrow> bool \<Rightarrow> payu_manifest \<times> world \<Rightarrow> (payu_manifest \<times> world) outcome" where
  "check_fast H githash reproduce mw =
     (case mw of (m, w) \<Rightarrow>
        let (ok, hashvals) = check_file H m (map fst (data m)) fast_hashes True
        in if ok then Returned (m, w)
           else
             let m1 = m\<lparr>data := save_hashvals hashvals (data m)\<rparr>
             in if reproduce then reproduce_loop H githash hashvals (m1, w)
                else
                  let w1 = print (UpdatingFull (length hashvals) (path m1)) w;
                      m2 = m1\<lparr>data := add H (data m1) (map fst hashvals) full_hashes True False\<rparr>;
                      w2 = print (Writing (path m2)) w1
                  in Returned (dump githash (m2, w2)))"

section \<open>Link materialisation\<close>

text \<open>
  \<^verbatim>\<open>PayuManifest.make_links\<close>: for every path of the document in order, a copy of the full
  path when \<^verbatim>\<open>copy_file\<close> says so, a symbolic link to it otherwise.

  Modelled from the spec: \<^verbatim>\<open>payu.fsops.make_symlink\<close> and \<^verbatim>\<open>shutil.copy\<close> are not part of the
  sources; each creates the link or the copy at the relative path, recorded in \<open>links\<close>.
\<close>

fun make_links_paths :: "payu_manifest \<Rightarrow> string list \<Rightarrow> world \<Rightarrow> world outcome" where
  "make_links_paths m [] w = Returned w"
| "make_links_paths m (filepath # rest) w =
     (case copy_file m filepath of
        Inl e \<Rightarrow> Raised e w
      | Inr c \<Rightarrow>
          (case getitem (data m) filepath of
             Inl e \<Rightarrow> Raised e w
           | Inr r \<Rightarrow>
               make_links_paths m rest
                 (w\<lparr>links := AList.update filepath
                                (if c then CopyOf (fullpath r) else LinkTo (fullpath r)) (links w)\<rparr>)))"

definition make_links :: "payu_manifest \<Rightarrow> world \<Rightarrow> world outcome" where
  "make_links m w = make_links_paths m (map fst (data m)) w"

section \<open>The manifest coordinator\<close>

subsection \<open>Paths and numbers of the Python library\<close>

text \<open>
  \<^verbatim>\<open>posixpath.split\<close> and \<^verbatim>\<open>posixpath.dirname\<close>:
  \<^verbatim>\<open>
  i = p.rfind('/') + 1
  head, tail = p[:i], p[i:]
  if head and head != '/' * len(head):
      head = head.rstrip('/')
  return head, tail
  \<close>
\<close>

definition rstrip :: "string \<Rightarrow> string \<Rightarrow> string" where
  "rstrip s chars = rev (dropWhile (\<lambda>x. x \<in> set chars) (rev s))"

definition lstrip :: "string \<Rightarrow> string \<Rightarrow> string" where
  "lstrip s chars = dropWhile (\<lambda>x. x \<in> set chars) s"

definition startswith :: "string \<Rightarrow> string \<Rightarrow> bool" where
  "startswith s prefix = (take (length prefix) s = prefix)"

definition os_path_split :: "string \<Rightarrow> string \<times> string" where
  "os_path_split p =
     (let i = nat (rfind p (CHR ''/'') + 1);
          head = take i p;
          tail = drop i p
      in (if head \<noteq> [] \<and> head \<noteq> replicate (length head) (CHR ''/'') then rstrip head ''/''
          else head,
          tail))"

definition dirname :: "string \<Rightarrow> string" where
  "dirname p = fst (os_path_split p)"

text \<open>
  \<^verbatim>\<open>int(s)\<close> for a string of Python 3.  A character of the model is a code point below 256.
  Python first turns every white space character above ASCII into a blank, which among these
  code points are 133 (NEL) and 160 (the no-break space), and leaves the ASCII characters as
  they are; then it skips the white space of C (the code points 9 to 13 and 32) on both
  sides and reads an optional sign and decimal digits, where single underscores may stand
  between digits.  The code points 28 to 31 are white space for \<^verbatim>\<open>str.strip\<close> but not here.
  There is no decimal digit from 128 to 255 (the superscripts 178, 179 and 185 are digits but
  not decimal ones), and the digits of other scripts lie above 255, outside the type.
  Anything else is a \<^verbatim>\<open>ValueError\<close>, here \<open>None\<close>.
\<close>

definition is_space :: "char \<Rightarrow> bool" where
  "is_space c = (let n = (of_char c :: nat) in (9 \<le> n \<and> n \<le> 13) \<or> n = 32 \<or> n = 133 \<or> n = 160)"

definition is_digit :: "char \<Rightarrow> bool" where
  "is_digit c = (let n = (of_char c :: nat) in 48 \<le> n \<and> n \<le> 57)"

definition digit_val :: "char \<Rightarrow> int" where
  "digit_val c = int (of_char c) - 48"

fun parse_digits :: "string \<Rightarrow> int \<Rightarrow> int option" where
  "parse_digits [] acc = Some acc"
| "parse_digits [c] acc = (if is_digit c then Some (10 * acc + digit_val c) else None)"
| "parse_digits (c # d # ds) acc =
     (if is_digit c then parse_digits (d # ds) (10 * acc + digit_val c)
      else if c = CHR ''_'' \<and> is_digit d then parse_digits ds (10 * acc + digit_val d)
      else None)"

definition parse_unsigned :: "string \<Rightarrow> int option" where
  "parse_unsigned s =
     (case s of [] \<Rightarrow> None | c # cs \<Rightarrow> if is_digit c then parse_digits cs (digit_val c) else None)"

definition py_int :: "string \<Rightarrow> int option" where
  "py_int s =
     (let t = rev (dropWhile is_space (rev (dropWhile is_space s)))
      in case t of
           [] \<Rightarrow> None
         | c # cs \<Rightarrow>
             if c = CHR ''-'' then map_option uminus (parse_unsigned cs)
             else if c = CHR ''+'' then parse_unsigned cs
             else parse_unsigned t)"

subsection \<open>The objects\<close>

text \<open>
  The experiment as far as the coordinator reads and writes it: the \<^verbatim>\<open>'manifest'\<close> section of
  its configuration (with the keys that are looked up, each optional), its models and its run
  counter.
\<close>

datatype ignore_cfg = IgnoreStr string | IgnoreList "string list"

record manifest_cfg =
  cfg_reproduce_exe :: "bool option"
  cfg_overwrite :: "bool option"
  cfg_ignore :: "ignore_cfg option"

record model =
  model_have_restart_manifest :: bool

record expt =
  config_manifest :: "manifest_cfg option"
  models :: "model list"
  counter :: int

record manifest =
  expt :: expt
  reproduce :: bool
  manifest_config :: manifest_cfg
  have_exe_manifest :: bool
  have_input_manifest :: bool
  have_restart_manifest :: bool
  reproduce_exe :: bool
  manifest_ignore :: "string list"
  input_manifest :: payu_manifest
  restart_manifest :: payu_manifest
  exe_manifest :: payu_manifest

definition PayuManifest :: "string \<Rightarrow> string list \<Rightarrow> payu_manifest" where
  "PayuManifest p ig = \<lparr>path = p, header = [], data = [], ignore = ig\<rparr>"

text \<open>\<^verbatim>\<open>Manifest.__init__\<close>.  Creating the directory of the manifests leaves no trace in the
  model.\<close>

definition Manifest_init :: "expt \<Rightarrow> bool \<Rightarrow> manifest" where
  "Manifest_init e rep =
     (let cfg = (case config_manifest e of
                   None \<Rightarrow> \<lparr>cfg_reproduce_exe = None, cfg_overwrite = None, cfg_ignore = None\<rparr>
                 | Some c \<Rightarrow> c);
          ig = (case cfg_ignore cfg of
                  None \<Rightarrow> [''.*'']
                | Some (IgnoreStr s) \<Rightarrow> [s]
                | Some (IgnoreList l) \<Rightarrow> l)
      in \<lparr>expt = e, reproduce = rep, manifest_config = cfg,
          have_exe_manifest = False, have_input_manifest = False, have_restart_manifest = False,
          reproduce_exe = (rep \<and> (case cfg_reproduce_exe cfg of None \<Rightarrow> True | Some b \<Rightarrow> b)),
          manifest_ignore = ig,
          input_manifest = PayuManifest ''manifests/input.yaml'' ig,
          restart_manifest = PayuManifest ''manifests/restart.yaml'' ig,
          exe_manifest = PayuManifest ''manifests/exe.yaml'' ig\<rparr>)"

subsection \<open>\<^verbatim>\<open>Manifest.setup\<close>\<close>

text \<open>
  Modelled from the spec: \<^verbatim>\<open>load\<close> of the base class reads header and data from the bound
  path; a file that is not there cannot be opened, which is an exception.  The length of a
  manifest is the number of its paths.
\<close>

definition path_exists :: "world \<Rightarrow> string \<Rightarrow> bool" where
  "path_exists w p = (fs w p \<noteq> None)"

definition load :: "payu_manifest \<Rightarrow> world \<Rightarrow> py_error + payu_manifest" where
  "load m w = (case fs w (path m) of
                 None \<Rightarrow> Inl IOError
               | Some (h, d) \<Rightarrow> Inr (m\<lparr>header := h, data := d\<rparr>))"

text \<open>Lines 207 to 223: the presence flag of the restart manifest, then the input and the
  executable manifest are loaded when their files exist.\<close>

definition setup_load_input :: "manifest \<times> world \<Rightarrow> (manifest \<times> world) outcome" where
  "setup_load_input Mw =
     (case Mw of (M, w) \<Rightarrow>
        if path_exists w (path (input_manifest M)) \<and>
           \<not> (case cfg_overwrite (manifest_config M) of None \<Rightarrow> False | Some b \<Rightarrow> b)
        then
          let w1 = print (LoadingInput (path (input_manifest M))) w
          in case load (input_manifest M) w1 of
               Inl e \<Rightarrow> Raised e (M, w1)
             | Inr im \<Rightarrow>
                 let M1 = M\<lparr>input_manifest := im\<rparr>
                 in Returned
                      (if length (data im) > 0 then M1\<lparr>have_input_manifest := True\<rparr> else M1, w1)
        else Returned (M, w))"

definition setup_load_exe :: "manifest \<times> world \<Rightarrow> (manifest \<times> world) outcome" where
  "setup_load_exe Mw =
     (case Mw of (M, w) \<Rightarrow>
        if path_exists w (path (exe_manifest M)) then
          let w1 = print (LoadingExe (path (exe_manifest M))) w
          in case load (exe_manifest M) w1 of
               Inl e \<Rightarrow> Raised e (M, w1)
             | Inr em \<Rightarrow>
                 let M1 = M\<lparr>exe_manifest := em\<rparr>
                 in Returned
                      (if length (data em) > 0 then M1\<lparr>have_exe_manifest := True\<rparr> else M1, w1)
        else Returned (M, w))"

text \<open>Lines 228 to 247: the restart manifest is loaded and the three requirements of a
  reproduced run are checked in turn, each ending the process with \<^verbatim>\<open>exit(1)\<close>.\<close>

definition setup_reproduce :: "manifest \<times> world \<Rightarrow> (manifest \<times> world) outcome" where
  "setup_reproduce Mw =
     (case Mw of (M, w) \<Rightarrow>
        let w1 = print (LoadingRestart (path (restart_manifest M))) w
        in (case load (restart_manifest M) w1 of
             Inl e \<Rightarrow> Raised e (M, w1)
           | Inr rm \<Rightarrow>
               let M1 = M\<lparr>restart_manifest := rm\<rparr>
               in if length (data rm) > 0 then
                    let M2 = M1\<lparr>have_restart_manifest := True\<rparr>
                    in if \<not> have_input_manifest M2 then Exited 1 (M2, print InputEmpty w1)
                       else if reproduce_exe M2 \<and> \<not> have_exe_manifest M2
                         then Exited 1 (M2, print ExeEmpty w1)
                       else
                         Returned
                           (M2\<lparr>expt := (expt M2)\<lparr>models :=
                                  map (\<lambda>x. x\<lparr>model_have_restart_manifest := True\<rparr>)
                                    (models (expt M2))\<rparr>\<rparr>, w1)
                  else Exited 1 (M1, print RestartEmpty w1)))"

text \<open>
  Lines 257 to 266, the walk up the directories of one full path:
  \<^verbatim>\<open>
  while True:
      head, tail = os.path.split(head)
      if tail.startswith('restart'):
          try:
              n = int(tail.lstrip('restart'))
          except ValueError:
              pass
          else:
              self.expt.counter = n + 1
              break
  \<close>
  The loop has no other exit, so it is a partial function: \<open>None\<close> is a walk that never ends,
  \<open>Some n\<close> one that leaves the loop with the number \<open>n\<close>.
\<close>

partial_function (option) walk :: "string \<Rightarrow> int option" where
  "walk head =
     (case os_path_split head of
        (head', tail) \<Rightarrow>
          if startswith tail ''restart'' then
            (case py_int (lstrip tail ''restart'') of
               None \<Rightarrow> walk head'
             | Some n \<Rightarrow> Some n)
          else walk head')"

declare walk.simps [code]

text \<open>Lines 253 to 269, the loop over the paths of the restart manifest.  It is left early
  only when the counter is zero after a walk.\<close>

fun scan_restarts :: "payu_manifest \<Rightarrow> string list \<Rightarrow> expt \<Rightarrow> expt option" where
  "scan_restarts rm [] e = Some e"
| "scan_restarts rm (filepath # rest) e =
     (case map_of (data rm) filepath of
        None \<Rightarrow> scan_restarts rm rest e
      | Some r \<Rightarrow>
          (case walk (dirname (fullpath r)) of
             None \<Rightarrow> None
           | Some n \<Rightarrow>
               (let e' = e\<lparr>counter := n + 1\<rparr>
                in if counter e' = 0 then Some e' else scan_restarts rm rest e')))"

text \<open>Lines 252 to 269: nothing is inferred when \<^verbatim>\<open>PAYU_CURRENT_RUN\<close> is set to a string that
  is not empty.\<close>

definition restart_inference :: "world \<Rightarrow> payu_manifest \<Rightarrow> expt \<Rightarrow> expt option" where
  "restart_inference w rm e =
     (if \<not> (case environ w ''PAYU_CURRENT_RUN'' of None \<Rightarrow> False | Some v \<Rightarrow> v \<noteq> [])
      then scan_restarts rm (map fst (data rm)) e
      else Some e)"

text \<open>\<^verbatim>\<open>Manifest.setup\<close> (the name alone is a command of Isabelle, hence the prefix);
  \<open>None\<close> when the call never returns.\<close>

definition manifest_setup :: "manifest \<times> world \<Rightarrow> (manifest \<times> world) outcome option" where
  "manifest_setup Mw =
     (case Mw of (M, w) \<Rightarrow>
        let M0 = M\<lparr>have_restart_manifest := path_exists w (path (restart_manifest M))\<rparr>
        in (case setup_load_input (M0, w) of
             Returned Mw1 \<Rightarrow>
               (case setup_load_exe Mw1 of
                  Returned (M2, w2) \<Rightarrow>
                    if reproduce M2 then
                      (case setup_reproduce (M2, w2) of
                         Returned (M3, w3) \<Rightarrow>
                           (case restart_inference w3 (restart_manifest M3) (expt M3) of
                              None \<Rightarrow> None
                            | Some e \<Rightarrow> Some (Returned (M3\<lparr>expt := e\<rparr>, w3)))
                       | other \<Rightarrow> Some other)
                    else Some (Returned (M2\<lparr>have_restart_manifest := False\<rparr>, w2))
                | other \<Rightarrow> Some other)
           | other \<Rightarrow> Some other))"

section \<open>Notions used in the statements\<close>

text \<open>
  A path fails the fast check when the fast check of \<^verbatim>\<open>check_fast\<close> enters it into
  \<^verbatim>\<open>hashvals\<close>; its full hash differs from the stored one when the full check of line 63
  returns false for it.
\<close>

definition fast_failed :: "hasher \<Rightarrow> payu_manifest \<Rightarrow> string \<Rightarrow> bool" where
  "fast_failed H m p =
     (p \<in> set (map fst (snd (check_file H m (map fst (data m)) fast_hashes True))))"

definition full_differs :: "hasher \<Rightarrow> payu_manifest \<Rightarrow> string \<Rightarrow> bool" where
  "full_differs H m p = (\<not> fst (check_file H m [p] full_hashes False))"

text \<open>Lines 61 and 65 to 68: what is printed for a failed path whose full hashes agree.\<close>

definition recheck_ok_messages :: "string \<Rightarrow> string \<times> (string \<times> string) list \<Rightarrow> msg list" where
  "recheck_ok_messages manifest_path x =
     (case x of (filepath, hs) \<Rightarrow>
        [CheckFailed filepath hs, FullHashesOk full_hashes,
         UpdatingFast filepath manifest_path, SavingUpdated])"

text \<open>The state in which a call ends, however it ends.\<close>

fun final_state :: "'a outcome \<Rightarrow> 'a" where
  "final_state (Returned s) = s"
| "final_state (Exited n s) = s"
| "final_state (Raised e s) = s"

text \<open>The manifest file on disk holds the header and the data of the object.\<close>

definition persisted :: "payu_manifest \<times> world \<Rightarrow> bool" where
  "persisted mw = (case mw of (m, w) \<Rightarrow> fs w (path m) = Some (header m, data m))"

text \<open>Every fast hash that can be computed is the one stored: the state of a document in
  which no path fails the fast check.\<close>

definition fast_current :: "hasher \<Rightarrow> document \<Rightarrow> bool" where
  "fast_current H d =
     (\<forall>q r v. map_of d q = Some r \<longrightarrow> H ''binhash'' (fullpath r) = Some v \<longrightarrow>
              get_hash (hashes r) ''binhash'' = Some v)"

text \<open>A call fails fatally when it ends the process with a status other than zero or is left
  by an exception that nothing catches.\<close>

fun is_fatal :: "'a outcome \<Rightarrow> bool" where
  "is_fatal (Returned s) = False"
| "is_fatal (Exited n s) = (n \<noteq> 0)"
| "is_fatal (Raised e s) = True"

text \<open>A manifest file is present and not empty.\<close>

definition present_nonempty :: "world \<Rightarrow> string \<Rightarrow> bool" where
  "present_nonempty w p = (case fs w p of None \<Rightarrow> False | Some (h, d) \<Rightarrow> d \<noteq> [])"

text \<open>A directory name at which the walk of the restart inference stops: it starts with
  \<^verbatim>\<open>restart\<close> and what is left after \<^verbatim>\<open>lstrip('restart')\<close> is an integer.\<close>

definition is_restart_dir :: "string \<Rightarrow> bool" where
  "is_restart_dir d = (startswith d ''restart'' \<and> py_int (lstrip d ''restart'') \<noteq> None)"

text \<open>The components of a path, and whether a directory above the file has a given name.\<close>

fun components_from :: "string \<Rightarrow> string \<Rightarrow> string list" where
  "components_from [] cur = [rev cur]"
| "components_from (c # cs) cur =
     (if c = CHR ''/'' then rev cur # components_from cs [] else components_from cs (c # cur))"

definition has_ancestor_dir :: "string \<Rightarrow> string \<Rightarrow> bool" where
  "has_ancestor_dir p name = (name \<in> set (butlast (components_from p [])))"

section \<open>Example values\<close>

text \<open>
  A manifest of three files.  Since it was written, \<^verbatim>\<open>a.nc\<close> has a new fast hash and the
  full hash it had, \<^verbatim>\<open>b.nc\<close> has changed in both, and \<^verbatim>\<open>c.nc\<close> is as it was.
\<close>

definition ex_rec :: "string \<Rightarrow> string \<Rightarrow> string \<Rightarrow> filerec" where
  "ex_rec fp b f = \<lparr>fullpath = fp, hashes = [(''binhash'', Some b), (''md5'', Some f)], copy = None\<rparr>"

definition ex_manifest :: payu_manifest where
  "ex_manifest =
     \<lparr>path = ''manifests/input.yaml'', header = [],
      data = [(''a.nc'', ex_rec ''/data/a.nc'' ''ab12'' ''ma''),
              (''b.nc'', ex_rec ''/data/b.nc'' ''bb'' ''mb''),
              (''c.nc'', ex_rec ''/data/c.nc'' ''cc'' ''mc'')],
      ignore = [''.*'']\<rparr>"

definition ex_manifest_ok :: payu_manifest where
  "ex_manifest_ok =
     \<lparr>path = ''manifests/input.yaml'', header = [],
      data = [(''a.nc'', ex_rec ''/data/a.nc'' ''ab12'' ''ma''),
              (''c.nc'', ex_rec ''/data/c.nc'' ''cc'' ''mc'')],
      ignore = [''.*'']\<rparr>"

definition ex_hasher :: hasher where
  "ex_hasher kind fp =
     (if kind = ''binhash'' then
        (if fp = ''/data/a.nc'' then Some ''cd34''
         else if fp = ''/data/b.nc'' then Some ''bb2''
         else if fp = ''/data/c.nc'' then Some ''cc'' else None)
      else if kind = ''md5'' then
        (if fp = ''/data/a.nc'' then Some ''ma''
         else if fp = ''/data/b.nc'' then Some ''mb2''
         else if fp = ''/data/c.nc'' then Some ''mc'' else None)
      else None)"

text \<open>The same with a fourth file \<^verbatim>\<open>d.nc\<close> that has changed in both hashes, like \<^verbatim>\<open>b.nc\<close>.\<close>

definition ex_manifest_two :: payu_manifest where
  "ex_manifest_two =
     \<lparr>path = ''manifests/input.yaml'', header = [],
      data = [(''a.nc'', ex_rec ''/data/a.nc'' ''ab12'' ''ma''),
              (''b.nc'', ex_rec ''/data/b.nc'' ''bb'' ''mb''),
              (''c.nc'', ex_rec ''/data/c.nc'' ''cc'' ''mc''),
              (''d.nc'', ex_rec ''/data/d.nc'' ''dd'' ''md'')],
      ignore = [''.*'']\<rparr>"

definition ex_hasher_two :: hasher where
  "ex_hasher_two kind fp =
     (if fp = ''/data/d.nc'' then
        (if kind = ''binhash'' then Some ''dd2''
         else if kind = ''md5'' then Some ''md2'' else None)
      else ex_hasher kind fp)"

definition ex_world :: world where
  "ex_world = \<lparr>fs = (\<lambda>p. None), links = [], environ = (\<lambda>x. None), stdout = [], stderr = []\<rparr>"

text \<open>An experiment without a \<^verbatim>\<open>'manifest'\<close> section in its configuration, one model, and the
  run counter at zero.\<close>

definition ex_expt :: expt where
  "ex_expt = \<lparr>config_manifest = None, models = [\<lparr>model_have_restart_manifest = False\<rparr>],
              counter = 0\<rparr>"

text \<open>A world in which the restart manifest is an empty file and the other two manifests do
  not exist.\<close>

definition ex_world_empty_restart :: world where
  "ex_world_empty_restart =
     \<lparr>fs = (\<lambda>p. if p = ''manifests/restart.yaml'' then Some ([], []) else None),
      links = [], environ = (\<lambda>x. None), stdout = [], stderr = []\<rparr>"

text \<open>A restart manifest with the given files, and a world in which it is on disk beside an
  input and an executable manifest with one file each, without \<^verbatim>\<open>PAYU_CURRENT_RUN\<close>.\<close>

definition ex_restart_data :: "(string \<times> string) list \<Rightarrow> document" where
  "ex_restart_data files = map (\<lambda>(p, fp). (p, ex_rec fp ''b'' ''f'')) files"

definition ex_world_restart :: "(string \<times> string) list \<Rightarrow> world" where
  "ex_world_restart files =
     \<lparr>fs = (\<lambda>p. if p = ''manifests/restart.yaml'' then Some ([], ex_restart_data files)
                 else if p = ''manifests/input.yaml''
                   then Some ([], [(''in.nc'', ex_rec ''/data/in.nc'' ''b'' ''f'')])
                 else if p = ''manifests/exe.yaml''
                   then Some ([], [(''model.exe'', ex_rec ''/apps/model.exe'' ''b'' ''f'')])
                 else None),
      links = [], environ = (\<lambda>x. None), stdout = [], stderr = []\<rparr>"

section \<open>Lemmas about the dictionaries\<close>

lemma compute_fast:
  "compute_hashes H fp fast_hashes True =
     (case H ''binhash'' fp of None \<Rightarrow> [] | Some v \<Rightarrow> [(''binhash'', v)])"
  by (simp add: fast_hashes_def split: option.splits)

lemma compute_full:
  "compute_hashes H fp full_hashes False =
     (case H ''md5'' fp of None \<Rightarrow> [] | Some v \<Rightarrow> [(''md5'', v)])"
  by (simp add: full_hashes_def split: option.splits)

lemma map_of_check_paths:
  "map_of (check_paths H d ps hashfn sc hv) p =
     (case map_of d p of
        Some r \<Rightarrow>
          if p \<in> set ps \<and> \<not> hashes_agree (hashes r) (compute_hashes H (fullpath r) hashfn sc)
          then Some (compute_hashes H (fullpath r) hashfn sc) else map_of hv p
      | None \<Rightarrow> map_of hv p)"
proof (induction ps arbitrary: hv)
  case Nil
  show ?case by (simp split: option.splits)
next
  case (Cons q ps)
  show ?case
    by (cases "map_of d q") (auto simp: Cons.IH Let_def update_conv' split: option.splits)
qed

lemma distinct_check_paths:
  "distinct (map fst hv) \<Longrightarrow> distinct (map fst (check_paths H d ps hashfn sc hv))"
proof (induction ps arbitrary: hv)
  case Nil
  then show ?case by simp
next
  case (Cons q ps)
  then show ?case
    by (cases "map_of d q") (auto simp: Let_def distinct_update)
qed

lemma map_of_save_hashvals:
  "distinct (map fst hv) \<Longrightarrow>
   map_of (save_hashvals hv d) p =
     map_option (\<lambda>r. case map_of hv p of None \<Rightarrow> r
                     | Some hs \<Rightarrow> r\<lparr>hashes := save_hashes hs (hashes r)\<rparr>) (map_of d p)"
proof (induction hv arbitrary: d p)
  case Nil
  show ?case by (simp add: option.map_ident)
next
  case (Cons a hv)
  obtain q hs where a: "a = (q, hs)" by (cases a)
  from Cons.prems a have d: "distinct (map fst hv)" and nq: "q \<notin> fst ` set hv" by auto
  from nq have none: "map_of hv q = None" by (simp add: map_of_eq_None_iff)
  show ?case
    unfolding a
    by (cases "map_of d q"; cases "p = q")
       (auto simp: Cons.IH [OF d] update_conv' none split: option.splits)
qed

lemma keys_update_present:
  "map_of d q = Some r \<Longrightarrow> map fst (AList.update q r' d) = map fst d"
  by (auto simp: update_keys dest!: map_of_SomeD intro: rev_image_eqI)

lemma keys_save_hashvals: "map fst (save_hashvals hv d) = map fst d"
proof (induction hv arbitrary: d)
  case Nil
  show ?case by simp
next
  case (Cons a hv)
  obtain q hs where a: "a = (q, hs)" by (cases a)
  show ?case
    unfolding a
    by (cases "map_of d q") (simp_all add: Cons.IH keys_update_present)
qed

lemma save_hashes_fast:
  "save_hashes [(''binhash'', v)] hdict = AList.update ''binhash'' (Some v) hdict"
  by (simp add: save_hashes_def)

lemma get_hash_update:
  "get_hash (AList.update k v hdict) h = (if h = k then v else get_hash hdict h)"
  by (simp add: get_hash_def update_conv')

lemma add_fast_data:
  "add H d [p] fast_hashes True True =
     (case map_of d p of None \<Rightarrow> d
      | Some r \<Rightarrow> AList.update p
          (r\<lparr>hashes := (case H ''binhash'' (fullpath r) of None \<Rightarrow> hashes r
                         | Some v \<Rightarrow> AList.update ''binhash'' (Some v) (hashes r))\<rparr>) d)"
  by (simp add: fast_hashes_def split: option.splits)

lemma add_hashes_full:
  "add_hashes H fp full_hashes True False hdict =
     (case H ''md5'' fp of None \<Rightarrow> hdict | Some v \<Rightarrow> AList.update ''md5'' (Some v) hdict)"
  by (simp add: full_hashes_def split: option.splits)

lemma keys_add: "map fst (add H d ps hashfn force sc) = map fst d"
proof (induction ps arbitrary: d)
  case Nil
  show ?case by simp
next
  case (Cons q ps)
  show ?case
    by (cases "map_of d q") (simp_all add: Cons.IH keys_update_present)
qed

lemma map_of_add:
  "distinct ps \<Longrightarrow>
   map_of (add H d ps hashfn force sc) p =
     map_option (\<lambda>r. if p \<in> set ps
                     then r\<lparr>hashes := add_hashes H (fullpath r) hashfn force sc (hashes r)\<rparr>
                     else r) (map_of d p)"
proof (induction ps arbitrary: d p)
  case Nil
  show ?case by (simp add: option.map_ident)
next
  case (Cons q ps)
  from Cons.prems have d: "distinct ps" and nq: "q \<notin> set ps" by auto
  show ?case
    by (cases "map_of d q"; cases "p = q")
       (auto simp: Cons.IH [OF d] update_conv' nq split: option.splits)
qed

lemma ignored_iff: "ignored fnmatch name patterns \<longleftrightarrow> (\<exists>pattern\<in>set patterns. fnmatch name pattern)"
  by (induction patterns) auto

section \<open>Lemmas about the two checks\<close>

lemma hashes_agree_fast:
  "hashes_agree hdict (compute_hashes H fp fast_hashes True) \<longleftrightarrow>
     (\<forall>v. H ''binhash'' fp = Some v \<longrightarrow> get_hash hdict ''binhash'' = Some v)"
  by (simp add: compute_fast hashes_agree_def split: option.splits)

lemma hashes_agree_full:
  "hashes_agree hdict (compute_hashes H fp full_hashes False) \<longleftrightarrow>
     (\<forall>v. H ''md5'' fp = Some v \<longrightarrow> get_hash hdict ''md5'' = Some v)"
  by (simp add: compute_full hashes_agree_def split: option.splits)

lemma distinct_fast_hashvals:
  "distinct (map fst (snd (check_file H m ps hashfn sc)))"
  by (simp add: check_file_def Let_def distinct_check_paths)

lemma map_of_fast_hashvals:
  "map_of (snd (check_file H m (map fst (data m)) fast_hashes True)) p =
     (case map_of (data m) p of
        None \<Rightarrow> None
      | Some r \<Rightarrow>
          (case H ''binhash'' (fullpath r) of
             None \<Rightarrow> None
           | Some v \<Rightarrow> if get_hash (hashes r) ''binhash'' = Some v then None
                       else Some [(''binhash'', v)]))"
proof (cases "map_of (data m) p")
  case None
  then show ?thesis by (simp add: check_file_def Let_def map_of_check_paths)
next
  case (Some r)
  then have "p \<in> set (map fst (data m))"
    by (metis map_of_eq_None_iff option.distinct(1) set_map)
  with Some show ?thesis
    by (simp add: check_file_def Let_def map_of_check_paths hashes_agree_def compute_fast
             split: option.splits)
qed

lemma fast_failed_iff:
  "fast_failed H m p \<longleftrightarrow>
     (\<exists>r v. map_of (data m) p = Some r \<and> H ''binhash'' (fullpath r) = Some v \<and>
            get_hash (hashes r) ''binhash'' \<noteq> Some v)"
proof -
  have "fast_failed H m p \<longleftrightarrow>
          map_of (snd (check_file H m (map fst (data m)) fast_hashes True)) p \<noteq> None"
    by (simp add: fast_failed_def map_of_eq_None_iff)
  then show ?thesis
    by (auto simp: map_of_fast_hashvals split: option.splits)
qed

lemma check_file_full_single:
  "check_file H m [p] full_hashes False =
     (case map_of (data m) p of
        None \<Rightarrow> (True, [])
      | Some r \<Rightarrow>
          (case H ''md5'' (fullpath r) of
             None \<Rightarrow> (True, [])
           | Some v \<Rightarrow> if get_hash (hashes r) ''md5'' = Some v then (True, [])
                       else (False, [(p, [(''md5'', v)])])))"
  by (simp add: check_file_def Let_def hashes_agree_def compute_full split: option.splits)

lemma full_differs_iff:
  "full_differs H m p \<longleftrightarrow>
     (\<exists>r v. map_of (data m) p = Some r \<and> H ''md5'' (fullpath r) = Some v \<and>
            get_hash (hashes r) ''md5'' \<noteq> Some v)"
  by (auto simp: full_differs_def check_file_full_single split: option.splits)

text \<open>The document after lines 55 to 57.\<close>

lemma map_of_saved:
  "map_of (save_hashvals (snd (check_file H m (map fst (data m)) fast_hashes True)) (data m)) p =
     (case map_of (data m) p of
        None \<Rightarrow> None
      | Some r \<Rightarrow>
          (case H ''binhash'' (fullpath r) of
             None \<Rightarrow> Some r
           | Some v \<Rightarrow> if get_hash (hashes r) ''binhash'' = Some v then Some r
                       else Some (r\<lparr>hashes := AList.update ''binhash'' (Some v) (hashes r)\<rparr>)))"
  by (simp add: map_of_save_hashvals [OF distinct_fast_hashvals] map_of_fast_hashvals
        save_hashes_fast split: option.splits)

section \<open>Lemmas about the loop of the reproduce branch\<close>

lemma get_hash_Some: "get_hash hdict k = Some v \<longleftrightarrow> map_of hdict k = Some (Some v)"
  by (auto simp: get_hash_def split: option.splits)

lemma fast_current_saved:
  "fast_current H
     (save_hashvals (snd (check_file H m (map fst (data m)) fast_hashes True)) (data m))"
  unfolding fast_current_def
  by (auto simp: map_of_saved get_hash_update split: option.splits if_splits)

lemma add_fast_id:
  assumes "fast_current H (data m)"
  shows "add_fast H m q fast_hashes True = m"
proof (cases "map_of (data m) q")
  case None
  then show ?thesis by (simp add: add_fast_def)
next
  case (Some r)
  have "(case H ''binhash'' (fullpath r) of None \<Rightarrow> hashes r
         | Some v \<Rightarrow> AList.update ''binhash'' (Some v) (hashes r)) = hashes r"
  proof (cases "H ''binhash'' (fullpath r)")
    case None
    then show ?thesis by simp
  next
    case (Some v)
    with assms \<open>map_of (data m) q = Some r\<close> have "map_of (hashes r) ''binhash'' = Some (Some v)"
      by (simp add: fast_current_def get_hash_Some)
    with Some show ?thesis by (simp add: update_triv)
  qed
  with Some have "add H (data m) [q] fast_hashes True True = data m"
    unfolding add_fast_data by (simp add: update_triv)
  then show ?thesis by (simp add: add_fast_def)
qed

lemma dump_fields:
  "data (fst (dump g (m, w))) = data m"
  "path (fst (dump g (m, w))) = path m"
  "ignore (fst (dump g (m, w))) = ignore m"
  "header (fst (dump g (m, w))) = AList.update ''githash'' g (header m)"
  "links (snd (dump g (m, w))) = links w"
  "environ (snd (dump g (m, w))) = environ w"
  "stdout (snd (dump g (m, w))) = stdout w"
  "stderr (snd (dump g (m, w))) = stderr w"
  "fs (snd (dump g (m, w))) = (fs w)(path m \<mapsto> (AList.update ''githash'' g (header m), data m))"
  by (simp_all add: dump_def Let_def)

lemma persisted_dump: "persisted (dump g (m, w))"
  by (simp add: dump_def Let_def persisted_def)

lemma full_differs_data: "data m' = data m \<Longrightarrow> full_differs H m' q = full_differs H m q"
  by (simp add: full_differs_iff)

lemma loop_step_ok:
  assumes "fast_current H (data m)" and "\<not> full_differs H m q"
  shows "reproduce_loop H g ((q, hs) # rest) (m, w) =
           reproduce_loop H g rest
             (dump g (m, w\<lparr>stdout := stdout w @ [CheckFailed q hs, FullHashesOk full_hashes,
                                                  UpdatingFast q (path m), SavingUpdated]\<rparr>))"
proof -
  from assms(2) have "check_file H m [q] full_hashes False = (True, [])"
    by (auto simp: full_differs_iff check_file_full_single split: option.splits)
  then show ?thesis
    by (simp add: add_fast_id [OF assms(1)] print_def)
qed

lemma loop_step_differs:
  assumes "map_of (data m) q = Some r" and "H ''md5'' (fullpath r) = Some v"
    and "get_hash (hashes r) ''md5'' \<noteq> Some v"
  shows "reproduce_loop H g ((q, hs) # rest) (m, w) =
           Exited 1 (m, w\<lparr>stdout := stdout w @ [CheckFailed q hs, DiagPath q,
                                DiagHash ''md5'' v (get_hash (hashes r) ''md5'')],
                            stderr := stderr w @ [CannotReproduce (path m)]\<rparr>)"
proof -
  from assms have "check_file H m [q] full_hashes False = (False, [(q, [(''md5'', v)])])"
    by (simp add: check_file_full_single)
  then show ?thesis
    using assms(1) by (simp add: print_def stderr_write_def diagnostics_def stored_hash_def)
qed

declare reproduce_loop.simps(2) [simp del]

lemma loop_exits_first:
  assumes "fast_current H (data m)" and "\<forall>x\<in>fst ` set pre. \<not> full_differs H m x"
    and "map_of (data m) q = Some r" and "H ''md5'' (fullpath r) = Some v"
    and "get_hash (hashes r) ''md5'' \<noteq> Some v"
  shows "\<exists>m' w'.
           reproduce_loop H g (pre @ (q, hs) # rest) (m, w) = Exited 1 (m', w') \<and>
           data m' = data m \<and> path m' = path m \<and>
           stdout w' = stdout w @ concat (map (recheck_ok_messages (path m)) pre) @
                         [CheckFailed q hs, DiagPath q,
                          DiagHash ''md5'' v (get_hash (hashes r) ''md5'')] \<and>
           stderr w' = stderr w @ [CannotReproduce (path m)]"
  using assms
proof (induction pre arbitrary: m w)
  case Nil
  have "reproduce_loop H g ((q, hs) # rest) (m, w) =
        Exited 1 (m, w\<lparr>stdout := stdout w @ [CheckFailed q hs, DiagPath q,
                                DiagHash ''md5'' v (get_hash (hashes r) ''md5'')],
                            stderr := stderr w @ [CannotReproduce (path m)]\<rparr>)"
    using Nil.prems(3,4,5) by (rule loop_step_differs)
  then show ?case by simp
next
  case (Cons a pre)
  obtain x hsx where a: "a = (x, hsx)" by (cases a)
  from Cons.prems(2) a have nd: "\<not> full_differs H m x" by simp
  let ?w = "w\<lparr>stdout := stdout w @ [CheckFailed x hsx, FullHashesOk full_hashes,
                                      UpdatingFast x (path m), SavingUpdated]\<rparr>"
  let ?m = "fst (dump g (m, ?w))"
  let ?w' = "snd (dump g (m, ?w))"
  have step: "reproduce_loop H g ((a # pre) @ (q, hs) # rest) (m, w) =
                reproduce_loop H g (pre @ (q, hs) # rest) (?m, ?w')"
    unfolding a using loop_step_ok [OF Cons.prems(1) nd, of g hsx "pre @ (q, hs) # rest" w]
    by simp
  have d: "data ?m = data m" "path ?m = path m"
    "stdout ?w' = stdout w @ recheck_ok_messages (path m) a" "stderr ?w' = stderr w"
    by (simp_all add: dump_fields recheck_ok_messages_def a)
  have fc: "fast_current H (data ?m)" using Cons.prems(1) d by simp
  from Cons.prems(2) have nds: "\<forall>x\<in>fst ` set pre. \<not> full_differs H ?m x"
    by (simp add: full_differs_data [OF d(1)])
  have q: "map_of (data ?m) q = Some r" using Cons.prems(3) d by simp
  from Cons.IH [OF fc nds q Cons.prems(4,5), of ?w'] obtain m' w' where
    "reproduce_loop H g (pre @ (q, hs) # rest) (?m, ?w') = Exited 1 (m', w')"
    "data m' = data ?m" "path m' = path ?m"
    "stdout w' = stdout ?w' @ concat (map (recheck_ok_messages (path ?m)) pre) @
                         [CheckFailed q hs, DiagPath q,
                          DiagHash ''md5'' v (get_hash (hashes r) ''md5'')]"
    "stderr w' = stderr ?w' @ [CannotReproduce (path ?m)]"
    by (elim exE conjE) (rule that)
  then show ?case
    unfolding step d by simp
qed

lemma loop_returns:
  assumes "fast_current H (data m)" and "\<forall>q\<in>fst ` set L. \<not> full_differs H m q"
  shows "\<exists>m' w'. reproduce_loop H g L (m, w) = Returned (m', w') \<and>
           data m' = data m \<and> path m' = path m \<and> ignore m' = ignore m \<and>
           links w' = links w \<and> environ w' = environ w \<and>
           (L \<noteq> [] \<or> persisted (m, w) \<longrightarrow> persisted (m', w'))"
  using assms
proof (induction L arbitrary: m w)
  case Nil
  then show ?case by simp
next
  case (Cons a L)
  obtain q hs where a: "a = (q, hs)" by (cases a)
  from Cons.prems(2) a have nd: "\<not> full_differs H m q" by simp
  let ?w = "w\<lparr>stdout := stdout w @ [CheckFailed q hs, FullHashesOk full_hashes,
                                      UpdatingFast q (path m), SavingUpdated]\<rparr>"
  let ?m = "fst (dump g (m, ?w))"
  let ?w' = "snd (dump g (m, ?w))"
  have step: "reproduce_loop H g (a # L) (m, w) = reproduce_loop H g L (?m, ?w')"
    unfolding a by (simp add: loop_step_ok [OF Cons.prems(1) nd])
  have d: "data ?m = data m" "path ?m = path m" "ignore ?m = ignore m"
    "links ?w' = links w" "environ ?w' = environ w"
    by (simp_all add: dump_fields)
  have p: "persisted (?m, ?w')" using persisted_dump [of g m ?w] by simp
  from Cons.prems(2) have "\<forall>q\<in>fst ` set L. \<not> full_differs H ?m q"
    by (simp add: full_differs_data [OF d(1)])
  moreover have "fast_current H (data ?m)" using Cons.prems(1) d by simp
  ultimately obtain m' w' where
    "reproduce_loop H g L (?m, ?w') = Returned (m', w')" "data m' = data ?m"
    "path m' = path ?m" "ignore m' = ignore ?m" "links w' = links ?w'" "environ w' = environ ?w'"
    "persisted (m', w')"
    using Cons.IH [of ?m ?w'] p by blast
  then show ?case
    unfolding step d by auto
qed

lemma loop_final:
  assumes "fast_current H (data m)"
  shows "data (fst (final_state (reproduce_loop H g L (m, w)))) = data m \<and>
         path (fst (final_state (reproduce_loop H g L (m, w)))) = path m \<and>
         (persisted (m, w) \<longrightarrow> persisted (final_state (reproduce_loop H g L (m, w))))"
  using assms
proof (induction L arbitrary: m w)
  case Nil
  then show ?case by simp
next
  case (Cons a L)
  obtain q hs where a: "a = (q, hs)" by (cases a)
  show ?case
  proof (cases "full_differs H m q")
    case True
    then obtain r v where r: "map_of (data m) q = Some r" "H ''md5'' (fullpath r) = Some v"
      "get_hash (hashes r) ''md5'' \<noteq> Some v"
      by (auto simp: full_differs_iff)
    have "reproduce_loop H g ((q, hs) # L) (m, w) =
        Exited 1 (m, w\<lparr>stdout := stdout w @ [CheckFailed q hs, DiagPath q,
                                DiagHash ''md5'' v (get_hash (hashes r) ''md5'')],
                            stderr := stderr w @ [CannotReproduce (path m)]\<rparr>)"
      using r by (rule loop_step_differs)
    then show ?thesis
      unfolding a by (simp add: persisted_def)
  next
    case False
    let ?w = "w\<lparr>stdout := stdout w @ [CheckFailed q hs, FullHashesOk full_hashes,
                                        UpdatingFast q (path m), SavingUpdated]\<rparr>"
    let ?m = "fst (dump g (m, ?w))"
    let ?w' = "snd (dump g (m, ?w))"
    have step: "reproduce_loop H g (a # L) (m, w) = reproduce_loop H g L (?m, ?w')"
      unfolding a by (simp add: loop_step_ok [OF Cons.prems(1) False])
    have d: "data ?m = data m" "path ?m = path m" by (simp_all add: dump_fields)
    have p: "persisted (?m, ?w')" using persisted_dump [of g m ?w] by simp
    have "fast_current H (data ?m)" using Cons.prems(1) d by simp
    from Cons.IH [OF this, of ?w'] p show ?thesis
      unfolding step d by simp
  qed
qed

lemma loop_first_ok_persisted:
  assumes "fast_current H (data m)" and "\<not> full_differs H m q"
  shows "persisted (final_state (reproduce_loop H g ((q, hs) # L) (m, w)))"
proof -
  let ?w = "w\<lparr>stdout := stdout w @ [CheckFailed q hs, FullHashesOk full_hashes,
                                      UpdatingFast q (path m), SavingUpdated]\<rparr>"
  let ?m = "fst (dump g (m, ?w))"
  let ?w' = "snd (dump g (m, ?w))"
  have step: "reproduce_loop H g ((q, hs) # L) (m, w) = reproduce_loop H g L (?m, ?w')"
    by (simp add: loop_step_ok [OF assms])
  have p: "persisted (?m, ?w')" using persisted_dump [of g m ?w] by simp
  have "fast_current H (data ?m)" using assms(1) by (simp add: dump_fields)
  from loop_final [OF this, of g L ?w'] p show ?thesis
    unfolding step by simp
qed

section \<open>Lemmas about \<^verbatim>\<open>check_fast\<close>\<close>

lemma fast_failed_hashvals:
  "fast_failed H m q \<longleftrightarrow> q \<in> fst ` set (snd (check_file H m (map fst (data m)) fast_hashes True))"
  by (simp add: fast_failed_def)

lemma check_fast_unfold:
  assumes "snd (check_file H m (map fst (data m)) fast_hashes True) = hv" and "hv \<noteq> []"
  shows "check_fast H g True (m, w) =
           reproduce_loop H g hv (m\<lparr>data := save_hashvals hv (data m)\<rparr>, w)"
    and "check_fast H g False (m, w) =
           Returned (dump g
             (m\<lparr>data := add H (save_hashvals hv (data m)) (map fst hv) full_hashes True False\<rparr>,
              w\<lparr>stdout := stdout w @ [UpdatingFull (length hv) (path m), Writing (path m)]\<rparr>))"
proof -
  have cf: "check_file H m (map fst (data m)) fast_hashes True = (False, hv)"
    using assms by (auto simp: check_file_def Let_def)
  show "check_fast H g True (m, w) =
           reproduce_loop H g hv (m\<lparr>data := save_hashvals hv (data m)\<rparr>, w)"
    by (simp add: check_fast_def cf)
  show "check_fast H g False (m, w) =
           Returned (dump g
             (m\<lparr>data := add H (save_hashvals hv (data m)) (map fst hv) full_hashes True False\<rparr>,
              w\<lparr>stdout := stdout w @ [UpdatingFull (length hv) (path m), Writing (path m)]\<rparr>))"
    by (simp add: check_fast_def cf print_def)
qed

lemma saved_record:
  assumes "map_of (data m) q = Some r"
  shows "\<exists>r1. map_of (save_hashvals (snd (check_file H m (map fst (data m)) fast_hashes True))
                  (data m)) q = Some r1 \<and>
           fullpath r1 = fullpath r \<and> copy r1 = copy r \<and>
           (\<forall>h. h \<noteq> ''binhash'' \<longrightarrow> map_of (hashes r1) h = map_of (hashes r) h) \<and>
           (\<forall>v. H ''binhash'' (fullpath r) = Some v \<longrightarrow> get_hash (hashes r1) ''binhash'' = Some v) \<and>
           (\<not> fast_failed H m q \<longrightarrow> r1 = r)"
  using assms
  by (auto simp: map_of_saved fast_failed_iff get_hash_update update_conv' split: option.splits)

lemma full_differs_saved:
  "full_differs H
     (m\<lparr>data := save_hashvals (snd (check_file H m (map fst (data m)) fast_hashes True)) (data m)\<rparr>) q
   = full_differs H m q"
proof (cases "map_of (data m) q")
  case None
  then show ?thesis by (simp add: full_differs_iff map_of_saved)
next
  case (Some r)
  from saved_record [OF Some, of H] obtain r1 where
    "map_of (save_hashvals (snd (check_file H m (map fst (data m)) fast_hashes True))
                  (data m)) q = Some r1" "fullpath r1 = fullpath r"
    "map_of (hashes r1) ''md5'' = map_of (hashes r) ''md5''"
    by auto
  with Some show ?thesis by (simp add: full_differs_iff get_hash_def)
qed

lemma hashvals_entry:
  assumes "(q, hsq) \<in> set (snd (check_file H m (map fst (data m)) fast_hashes True))"
    and "(h, v) \<in> set hsq"
  shows "\<exists>r. map_of (data m) q = Some r \<and> h = ''binhash'' \<and> H ''binhash'' (fullpath r) = Some v \<and>
             fast_failed H m q"
proof -
  from assms(1) have "map_of (snd (check_file H m (map fst (data m)) fast_hashes True)) q = Some hsq"
    by (simp add: distinct_fast_hashvals)
  with assms(2) show ?thesis
    by (auto simp: map_of_fast_hashvals fast_failed_iff split: option.splits if_splits)
qed

section \<open>Lemmas about \<^verbatim>\<open>Manifest.setup\<close>\<close>

lemma setup_load_input_returns:
  "\<exists>M1 w1. setup_load_input (M, w) = Returned (M1, w1) \<and>
     fs w1 = fs w \<and> links w1 = links w \<and> environ w1 = environ w \<and>
     reproduce M1 = reproduce M \<and> reproduce_exe M1 = reproduce_exe M \<and>
     restart_manifest M1 = restart_manifest M \<and> exe_manifest M1 = exe_manifest M \<and>
     have_exe_manifest M1 = have_exe_manifest M \<and> expt M1 = expt M \<and>
     (have_input_manifest M1 \<longrightarrow>
        have_input_manifest M \<or> present_nonempty w (path (input_manifest M)))"
  by (auto simp: setup_load_input_def load_def path_exists_def print_def Let_def
        present_nonempty_def split: option.splits)

lemma setup_load_exe_returns:
  "\<exists>M1 w1. setup_load_exe (M, w) = Returned (M1, w1) \<and>
     fs w1 = fs w \<and> links w1 = links w \<and> environ w1 = environ w \<and>
     reproduce M1 = reproduce M \<and> reproduce_exe M1 = reproduce_exe M \<and>
     restart_manifest M1 = restart_manifest M \<and> input_manifest M1 = input_manifest M \<and>
     have_input_manifest M1 = have_input_manifest M \<and> expt M1 = expt M \<and>
     (have_exe_manifest M1 \<longrightarrow>
        have_exe_manifest M \<or> present_nonempty w (path (exe_manifest M)))"
  by (auto simp: setup_load_exe_def load_def path_exists_def print_def Let_def
        present_nonempty_def split: option.splits)

lemma setup_loads:
  "\<exists>M2 w2.
     manifest_setup (M, w) =
       (if reproduce M then
          (case setup_reproduce (M2, w2) of
             Returned (M3, w3) \<Rightarrow>
               (case restart_inference w3 (restart_manifest M3) (expt M3) of
                  None \<Rightarrow> None
                | Some e \<Rightarrow> Some (Returned (M3\<lparr>expt := e\<rparr>, w3)))
           | other \<Rightarrow> Some other)
        else Some (Returned (M2\<lparr>have_restart_manifest := False\<rparr>, w2))) \<and>
     fs w2 = fs w \<and> links w2 = links w \<and> environ w2 = environ w \<and>
     reproduce_exe M2 = reproduce_exe M \<and> restart_manifest M2 = restart_manifest M \<and>
     expt M2 = expt M \<and>
     (have_input_manifest M2 \<longrightarrow>
        have_input_manifest M \<or> present_nonempty w (path (input_manifest M))) \<and>
     (have_exe_manifest M2 \<longrightarrow>
        have_exe_manifest M \<or> present_nonempty w (path (exe_manifest M)))"
proof -
  let ?M0 = "M\<lparr>have_restart_manifest := path_exists w (path (restart_manifest M))\<rparr>"
  from setup_load_input_returns [of ?M0 w] obtain M1 w1 where
    1: "setup_load_input (?M0, w) = Returned (M1, w1)"
      "fs w1 = fs w" "links w1 = links w" "environ w1 = environ w"
      "reproduce M1 = reproduce M" "reproduce_exe M1 = reproduce_exe M"
      "restart_manifest M1 = restart_manifest M" "exe_manifest M1 = exe_manifest M"
      "have_exe_manifest M1 = have_exe_manifest M" "expt M1 = expt M"
      "have_input_manifest M1 \<longrightarrow>
        have_input_manifest M \<or> present_nonempty w (path (input_manifest M))"
    by (elim exE conjE) (rule that, assumption, simp_all)
  from setup_load_exe_returns [of M1 w1] obtain M2 w2 where
    2: "setup_load_exe (M1, w1) = Returned (M2, w2)"
      "fs w2 = fs w1" "links w2 = links w1" "environ w2 = environ w1"
      "reproduce M2 = reproduce M1" "reproduce_exe M2 = reproduce_exe M1"
      "restart_manifest M2 = restart_manifest M1" "input_manifest M2 = input_manifest M1"
      "have_input_manifest M2 = have_input_manifest M1" "expt M2 = expt M1"
      "have_exe_manifest M2 \<longrightarrow>
        have_exe_manifest M1 \<or> present_nonempty w1 (path (exe_manifest M1))"
    by (elim exE conjE) (rule that)
  have pn: "present_nonempty w1 = present_nonempty w"
    by (rule ext) (simp add: present_nonempty_def 1(2))
  show ?thesis
    apply (rule exI [of _ M2], rule exI [of _ w2])
    using 1 2 by (simp add: manifest_setup_def Let_def pn)
qed

lemma setup_reproduce_links:
  "links (snd (final_state (setup_reproduce (M, w)))) = links w"
  by (simp add: setup_reproduce_def load_def print_def Let_def split: option.splits prod.splits)

lemma setup_reproduce_empty:
  assumes "fs w (path (restart_manifest M)) = Some (h, [])"
  shows "\<exists>M' w'. setup_reproduce (M, w) = Exited 1 (M', w') \<and> last (stdout w') = RestartEmpty \<and>
           links w' = links w"
  using assms by (simp add: setup_reproduce_def load_def print_def Let_def)

lemma setup_reproduce_no_input:
  assumes "\<not> have_input_manifest M"
  shows "is_fatal (setup_reproduce (M, w))"
  using assms
  by (simp add: setup_reproduce_def load_def print_def Let_def split: option.splits prod.splits)

lemma setup_reproduce_no_exe:
  assumes "reproduce_exe M" and "\<not> have_exe_manifest M"
  shows "is_fatal (setup_reproduce (M, w))"
  using assms
  by (simp add: setup_reproduce_def load_def print_def Let_def split: option.splits prod.splits)

lemma setup_fatal:
  assumes "reproduce M"
    and run: "manifest_setup (M, w) =
       (if reproduce M then
          (case setup_reproduce (M2, w2) of
             Returned (M3, w3) \<Rightarrow>
               (case restart_inference w3 (restart_manifest M3) (expt M3) of
                  None \<Rightarrow> None
                | Some e \<Rightarrow> Some (Returned (M3\<lparr>expt := e\<rparr>, w3)))
           | other \<Rightarrow> Some other)
        else Some (Returned (M2\<lparr>have_restart_manifest := False\<rparr>, w2)))"
    and "is_fatal (setup_reproduce (M2, w2))"
  shows "manifest_setup (M, w) = Some (setup_reproduce (M2, w2))"
  using assms by (cases "setup_reproduce (M2, w2)") simp_all

section \<open>Lemmas about the walk up the directories\<close>

lemma rfind_last_component:
  assumes "CHR ''/'' \<notin> set c"
  shows "nat (rfind (X @ CHR ''/'' # c) (CHR ''/'') + 1) = Suc (length X)"
proof -
  have "takeWhile (\<lambda>x. x \<noteq> CHR ''/'') (rev c @ CHR ''/'' # rev X) = rev c"
    using assms by (subst takeWhile_append2) auto
  then have "rfind (X @ CHR ''/'' # c) (CHR ''/'') = int (length X)"
    by (simp add: rfind_def)
  then show ?thesis by simp
qed

lemma split_tail:
  assumes "CHR ''/'' \<notin> set c"
  shows "snd (os_path_split (X @ CHR ''/'' # c)) = c"
  by (simp add: os_path_split_def rfind_last_component [OF assms] Let_def)

lemma split_last_component:
  assumes "CHR ''/'' \<notin> set c" and "X \<noteq> []" and "last X \<noteq> CHR ''/''"
  shows "os_path_split (X @ CHR ''/'' # c) = (X, c)"
proof -
  from assms(2,3) have nr: "X @ [CHR ''/''] \<noteq> replicate (Suc (length X)) (CHR ''/'')"
  proof -
    from assms(2) have "last X \<in> set X" by simp
    with assms(3) have "\<exists>x\<in>set (X @ [CHR ''/'']). x \<noteq> CHR ''/''" by auto
    then show ?thesis by (metis in_set_replicate)
  qed
  from assms(2,3) have "dropWhile (\<lambda>x. x = CHR ''/'') (rev X) = rev X"
    by (cases X rule: rev_cases) auto
  then have rs: "rstrip (X @ [CHR ''/'']) ''/'' = X"
    by (simp add: rstrip_def)
  have tk: "take (Suc (length X)) (X @ CHR ''/'' # c) = X @ [CHR ''/'']"
    "drop (Suc (length X)) (X @ CHR ''/'' # c) = c"
    by simp_all
  show ?thesis
    unfolding os_path_split_def rfind_last_component [OF assms(1)] Let_def tk
    using nr rs by simp
qed

lemma walk_at_restart003: "walk (base @ ''/restart003'') = Some 3"
proof -
  have "snd (os_path_split (base @ CHR ''/'' # ''restart003'')) = ''restart003''"
    by (rule split_tail) simp
  then obtain h where s: "os_path_split (base @ ''/restart003'') = (h, ''restart003'')"
    by (cases "os_path_split (base @ ''/restart003'')") simp
  have p: "py_int (lstrip ''restart003'' ''restart'') = Some 3"
    by (simp add: lstrip_def py_int_def parse_unsigned_def is_digit_def is_space_def digit_val_def)
  show ?thesis
    by (subst walk.simps) (simp add: s p startswith_def)
qed

lemma walk_skips_dir:
  assumes "CHR ''/'' \<notin> set d" and "\<not> is_restart_dir d" and "X \<noteq> []" and "last X \<noteq> CHR ''/''"
  shows "walk (X @ CHR ''/'' # d) = walk X"
proof -
  have s: "os_path_split (X @ CHR ''/'' # d) = (X, d)"
    by (rule split_last_component) (rule assms)+
  from assms(2) show ?thesis
    by (subst walk.simps) (auto simp: s is_restart_dir_def split: option.splits)
qed

lemma walk_below_restart003:
  assumes "\<forall>d\<in>set dirs. d \<noteq> [] \<and> CHR ''/'' \<notin> set d \<and> \<not> is_restart_dir d"
  shows "walk (base @ ''/restart003'' @ concat (map (\<lambda>d. CHR ''/'' # d) dirs)) = Some 3"
  using assms
proof (induction dirs rule: rev_induct)
  case Nil
  show ?case using walk_at_restart003 [of base] by simp
next
  case (snoc d dirs)
  let ?X = "base @ ''/restart003'' @ concat (map (\<lambda>d. CHR ''/'' # d) dirs)"
  from snoc.prems have d: "d \<noteq> []" "CHR ''/'' \<notin> set d" "\<not> is_restart_dir d"
    and rest: "\<forall>d\<in>set dirs. d \<noteq> [] \<and> CHR ''/'' \<notin> set d \<and> \<not> is_restart_dir d"
    by auto
  have ne: "?X \<noteq> []" by simp
  have l: "last ?X \<noteq> CHR ''/''"
  proof (cases dirs rule: rev_cases)
    case Nil
    then show ?thesis by simp
  next
    case (snoc ds d')
    with rest have "d' \<noteq> []" "CHR ''/'' \<notin> set d'" by auto
    then have "last d' \<noteq> CHR ''/''" by (metis last_in_set)
    with snoc \<open>d' \<noteq> []\<close> show ?thesis by simp
  qed
  have "base @ ''/restart003'' @ concat (map (\<lambda>d. CHR ''/'' # d) (dirs @ [d])) = ?X @ CHR ''/'' # d"
    by simp
  then show ?case
    using walk_skips_dir [OF d(2,3) ne l] snoc.IH [OF rest] by simp
qed

lemma dirname_below_restart003:
  assumes "\<forall>d\<in>set dirs. d \<noteq> [] \<and> CHR ''/'' \<notin> set d" and "CHR ''/'' \<notin> set fname"
  shows "dirname (base @ ''/restart003'' @ concat (map (\<lambda>d. CHR ''/'' # d) dirs) @ CHR ''/'' # fname)
           = base @ ''/restart003'' @ concat (map (\<lambda>d. CHR ''/'' # d) dirs)"
proof -
  let ?X = "base @ ''/restart003'' @ concat (map (\<lambda>d. CHR ''/'' # d) dirs)"
  have ne: "?X \<noteq> []" by simp
  have l: "last ?X \<noteq> CHR ''/''"
  proof (cases dirs rule: rev_cases)
    case Nil
    then show ?thesis by simp
  next
    case (snoc ds d')
    with assms(1) have "d' \<noteq> []" "CHR ''/'' \<notin> set d'" by auto
    then have "last d' \<noteq> CHR ''/''" by (metis last_in_set)
    with snoc \<open>d' \<noteq> []\<close> show ?thesis by simp
  qed
  have "os_path_split (?X @ CHR ''/'' # fname) = (?X, fname)"
    by (rule split_last_component [OF assms(2) ne l])
  then show ?thesis by (simp add: dirname_def)
qed

lemma walk_stays_above:
  assumes "walk head = Some n"
  shows "head \<notin> {''/scratch/work'', ''/scratch'', ''/''}"
  using assms
proof (induct head n rule: walk.raw_induct [rotated 1, consumes 1, case_names step])
  case (step walk' head n)
  note IH = step(1) and eq = step(2)
  show ?case
  proof
    assume "head \<in> {''/scratch/work'', ''/scratch'', ''/''}"
    then consider (a) "head = ''/scratch/work''" | (b) "head = ''/scratch''" | (c) "head = ''/''"
      by auto
    then show False
    proof cases
      case a
      have "os_path_split ''/scratch/work'' = (''/scratch'', ''work'')"
        by (simp add: os_path_split_def rfind_def rstrip_def Let_def)
      with eq a have "walk' ''/scratch'' = Some n" by (simp add: startswith_def)
      from IH [OF this] show False by simp
    next
      case b
      have "os_path_split ''/scratch'' = (''/'', ''scratch'')"
        by (simp add: os_path_split_def rfind_def rstrip_def Let_def)
      with eq b have "walk' ''/'' = Some n" by (simp add: startswith_def)
      from IH [OF this] show False by simp
    next
      case c
      have "os_path_split ''/'' = (''/'', [])"
        by (simp add: os_path_split_def rfind_def rstrip_def Let_def)
      with eq c have "walk' ''/'' = Some n" by (simp add: startswith_def)
      from IH [OF this] show False by simp
    qed
  qed
qed

lemmas ex_defs = ex_manifest_def ex_manifest_ok_def ex_rec_def ex_hasher_def ex_world_def

lemmas setup_defs = manifest_setup_def setup_load_input_def setup_load_exe_def setup_reproduce_def
  load_def path_exists_def print_def Let_def Manifest_init_def PayuManifest_def
  ex_world_restart_def ex_restart_data_def ex_expt_def ex_rec_def

lemma scan_all_three:
  assumes "\<forall>p\<in>set ps. \<exists>r. map_of (data rm) p = Some r \<and> walk (dirname (fullpath r)) = Some 3"
    and "ps \<noteq> []"
  shows "scan_restarts rm ps e = Some (e\<lparr>counter := 4\<rparr>)"
  using assms
proof (induction ps arbitrary: e)
  case Nil
  then show ?case by simp
next
  case (Cons p ps)
  from Cons.prems(1) obtain r where r: "map_of (data rm) p = Some r"
    "walk (dirname (fullpath r)) = Some 3"
    by auto
  show ?case
  proof (cases "ps = []")
    case True
    with r show ?thesis by simp
  next
    case False
    from Cons.prems(1) have "\<forall>p\<in>set ps. \<exists>r. map_of (data rm) p = Some r \<and>
        walk (dirname (fullpath r)) = Some 3"
      by simp
    from Cons.IH [OF this False, of "e\<lparr>counter := 4\<rparr>"] r show ?thesis by simp
  qed
qed

lemmas check_fast_eval = check_fast_def check_file_def Let_def fast_hashes_def full_hashes_def
  hashes_agree_def get_hash_def save_hashes_def print_def stderr_write_def add_fast_def dump_def
  diagnostics_def stored_hash_def reproduce_loop.simps

section \<open>The claims\<close>

text \<open>
  C1, as stated: with \<^verbatim>\<open>reproduce=True\<close>, a path that fails the fast check and whose full hash
  differs gets its diagnostic, and no partial success is reported.  In the manifest below
  \<^verbatim>\<open>a.nc\<close> fails the fast check and passes the full one, \<^verbatim>\<open>b.nc\<close> and \<^verbatim>\<open>d.nc\<close> fail both.  The
  process exits at \<^verbatim>\<open>b.nc\<close>, which is inside the loop over the failed paths (line 76): nothing
  is printed about \<^verbatim>\<open>d.nc\<close>, while \<^verbatim>\<open>a.nc\<close> has been reported as checked and the manifest has
  been saved, with the new fast hashes of \<^verbatim>\<open>b.nc\<close> and \<^verbatim>\<open>d.nc\<close> beside their old full hashes.
\<close>

theorem check_fast_reproduce_counterexample:
  "fast_failed ex_hasher_two ex_manifest_two ''d.nc'' \<and>
   full_differs ex_hasher_two ex_manifest_two ''d.nc'' \<and>
   is_fatal (check_fast ex_hasher_two ''rev'' True (ex_manifest_two, ex_world)) \<and>
   stdout (snd (final_state (check_fast ex_hasher_two ''rev'' True (ex_manifest_two, ex_world)))) =
     [CheckFailed ''a.nc'' [(''binhash'', ''cd34'')], FullHashesOk [''md5''],
      UpdatingFast ''a.nc'' ''manifests/input.yaml'', SavingUpdated,
      CheckFailed ''b.nc'' [(''binhash'', ''bb2'')],
      DiagPath ''b.nc'', DiagHash ''md5'' ''mb2'' (Some ''mb'')] \<and>
   DiagPath ''d.nc'' \<notin>
     set (stdout (snd (final_state
       (check_fast ex_hasher_two ''rev'' True (ex_manifest_two, ex_world))))) \<and>
   fs (snd (final_state (check_fast ex_hasher_two ''rev'' True (ex_manifest_two, ex_world))))
      ''manifests/input.yaml'' =
     Some ([(''githash'', ''rev'')],
           [(''a.nc'', ex_rec ''/data/a.nc'' ''cd34'' ''ma''),
            (''b.nc'', ex_rec ''/data/b.nc'' ''bb2'' ''mb''),
            (''c.nc'', ex_rec ''/data/c.nc'' ''cc'' ''mc''),
            (''d.nc'', ex_rec ''/data/d.nc'' ''dd2'' ''md'')])"
proof -
  have 1: "fast_failed ex_hasher_two ex_manifest_two ''d.nc''"
    by (simp add: fast_failed_iff ex_manifest_two_def ex_hasher_two_def ex_defs get_hash_def)
  have 2: "full_differs ex_hasher_two ex_manifest_two ''d.nc''"
    by (simp add: full_differs_iff ex_manifest_two_def ex_hasher_two_def ex_defs get_hash_def)
  have 3: "check_fast ex_hasher_two ''rev'' True (ex_manifest_two, ex_world) =
      Exited 1
        (fst (final_state (check_fast ex_hasher_two ''rev'' True (ex_manifest_two, ex_world))),
         snd (final_state (check_fast ex_hasher_two ''rev'' True (ex_manifest_two, ex_world))))"
    by (simp add: check_fast_eval ex_manifest_two_def ex_hasher_two_def ex_defs)
  have 4: "stdout (snd (final_state
              (check_fast ex_hasher_two ''rev'' True (ex_manifest_two, ex_world)))) =
     [CheckFailed ''a.nc'' [(''binhash'', ''cd34'')], FullHashesOk [''md5''],
      UpdatingFast ''a.nc'' ''manifests/input.yaml'', SavingUpdated,
      CheckFailed ''b.nc'' [(''binhash'', ''bb2'')],
      DiagPath ''b.nc'', DiagHash ''md5'' ''mb2'' (Some ''mb'')]"
    by (simp add: check_fast_eval ex_manifest_two_def ex_hasher_two_def ex_defs)
  have 5: "is_fatal (check_fast ex_hasher_two ''rev'' True (ex_manifest_two, ex_world))"
    by (subst 3) simp
  have 6: "fs (snd (final_state
              (check_fast ex_hasher_two ''rev'' True (ex_manifest_two, ex_world))))
      ''manifests/input.yaml'' =
     Some ([(''githash'', ''rev'')],
           [(''a.nc'', ex_rec ''/data/a.nc'' ''cd34'' ''ma''),
            (''b.nc'', ex_rec ''/data/b.nc'' ''bb2'' ''mb''),
            (''c.nc'', ex_rec ''/data/c.nc'' ''cc'' ''mc''),
            (''d.nc'', ex_rec ''/data/d.nc'' ''dd2'' ''md'')])"
    by (simp add: check_fast_eval ex_manifest_two_def ex_hasher_two_def ex_defs)
  from 1 2 5 6 show ?thesis unfolding 4 by simp
qed

text \<open>
  C1, amended.  \<^verbatim>\<open>check_fast\<close> with \<^verbatim>\<open>reproduce=True\<close>, when some path of the document fails
  the fast check and its full hash, computed again, is not the stored one: the call does not
  return, the process exits with status 1.  It does so at the first failed path \<open>q\<close>, in the
  order of the document, whose full hash differs.  Up to there the standard output has, for
  every failed path before \<open>q\<close>, the messages of a recheck that passed, and then for \<open>q\<close> the
  message that its check failed and its diagnostic: the path, then the hash kind, the digest
  just observed and the digest stored in the document.  The standard error stream has the
  message that the run cannot reproduce.  Nothing is printed for a path after \<open>q\<close>.
\<close>

theorem check_fast_reproduce_exits_at_first_mismatch:
  assumes "fast_failed H m p" and "full_differs H m p"
  shows "\<exists>pre q hs rest r v m' w'.
           snd (check_file H m (map fst (data m)) fast_hashes True) = pre @ (q, hs) # rest \<and>
           (\<forall>x\<in>fst ` set pre. \<not> full_differs H m x) \<and>
           map_of (data m) q = Some r \<and> H ''md5'' (fullpath r) = Some v \<and>
           get_hash (hashes r) ''md5'' \<noteq> Some v \<and>
           check_fast H githash True (m, w) = Exited 1 (m', w') \<and>
           stdout w' = stdout w @ concat (map (recheck_ok_messages (path m)) pre) @
                         [CheckFailed q hs, DiagPath q,
                          DiagHash ''md5'' v (get_hash (hashes r) ''md5'')] \<and>
           stderr w' = stderr w @ [CannotReproduce (path m)]"
proof -
  let ?hv = "snd (check_file H m (map fst (data m)) fast_hashes True)"
  let ?m = "m\<lparr>data := save_hashvals ?hv (data m)\<rparr>"
  from assms(1) have ne: "?hv \<noteq> []" by (auto simp: fast_failed_hashvals)
  have run: "check_fast H githash True (m, w) = reproduce_loop H githash ?hv (?m, w)"
    by (rule check_fast_unfold(1) [OF refl ne])
  have fc: "fast_current H (data ?m)" by (simp add: fast_current_saved)
  from assms have "\<exists>a\<in>set ?hv. full_differs H m (fst a)"
    by (auto simp: fast_failed_hashvals)
  from split_list_first_prop [OF this] obtain pre a rest where
    hv: "?hv = pre @ a # rest" and da: "full_differs H m (fst a)"
    and nd: "\<forall>y\<in>set pre. \<not> full_differs H m (fst y)"
    by blast
  obtain q hs where a: "a = (q, hs)" by (cases a)
  from da a obtain r v where r: "map_of (data m) q = Some r"
    and v: "H ''md5'' (fullpath r) = Some v" "get_hash (hashes r) ''md5'' \<noteq> Some v"
    by (auto simp: full_differs_iff)
  from saved_record [OF r, of H] obtain r1 where r1: "map_of (data ?m) q = Some r1"
    and same: "fullpath r1 = fullpath r" "map_of (hashes r1) ''md5'' = map_of (hashes r) ''md5''"
    by auto
  from same(2) have g: "get_hash (hashes r1) ''md5'' = get_hash (hashes r) ''md5''"
    by (simp add: get_hash_def)
  from nd have nd': "\<forall>x\<in>fst ` set pre. \<not> full_differs H m x" by auto
  then have nds: "\<forall>x\<in>fst ` set pre. \<not> full_differs H ?m x"
    by (simp add: full_differs_saved)
  from v have v1: "H ''md5'' (fullpath r1) = Some v" "get_hash (hashes r1) ''md5'' \<noteq> Some v"
    by (simp_all add: same(1) g)
  from loop_exits_first [OF fc nds r1 v1, of githash hs rest w] obtain m' w' where
    ex: "reproduce_loop H githash (pre @ (q, hs) # rest) (?m, w) = Exited 1 (m', w')"
    and out: "stdout w' = stdout w @ concat (map (recheck_ok_messages (path ?m)) pre) @
                         [CheckFailed q hs, DiagPath q,
                          DiagHash ''md5'' v (get_hash (hashes r1) ''md5'')]"
      "stderr w' = stderr w @ [CannotReproduce (path ?m)]"
    by (elim exE conjE) (rule that)
  show ?thesis
    apply (rule exI [of _ pre], rule exI [of _ q], rule exI [of _ hs], rule exI [of _ rest],
        rule exI [of _ r], rule exI [of _ v], rule exI [of _ m'], rule exI [of _ w'])
    using hv a nd' r v ex out by (simp add: run g)
qed

theorem check_fast_reproduce_exits_at_first_mismatch_witness:
  "fast_failed ex_hasher ex_manifest ''b.nc'' \<and> full_differs ex_hasher ex_manifest ''b.nc'' \<and>
   (\<exists>pre q hs rest r v m' w'.
      snd (check_file ex_hasher ex_manifest (map fst (data ex_manifest)) fast_hashes True) =
        pre @ (q, hs) # rest \<and>
      map_of (data ex_manifest) q = Some r \<and> ex_hasher ''md5'' (fullpath r) = Some v \<and>
      get_hash (hashes r) ''md5'' \<noteq> Some v \<and>
      check_fast ex_hasher ''rev'' True (ex_manifest, ex_world) = Exited 1 (m', w') \<and>
      stdout w' = stdout ex_world @ concat (map (recheck_ok_messages (path ex_manifest)) pre) @
                    [CheckFailed q hs, DiagPath q,
                     DiagHash ''md5'' v (get_hash (hashes r) ''md5'')] \<and>
      stderr w' = stderr ex_world @ [CannotReproduce (path ex_manifest)])"
proof -
  have 1: "fast_failed ex_hasher ex_manifest ''b.nc''"
    by (simp add: fast_failed_iff ex_defs get_hash_def)
  have 2: "full_differs ex_hasher ex_manifest ''b.nc''"
    by (simp add: full_differs_iff ex_defs get_hash_def)
  from check_fast_reproduce_exits_at_first_mismatch [OF 1 2, of "''rev''" ex_world]
  obtain pre q hs rest r v m' w' where
    "snd (check_file ex_hasher ex_manifest (map fst (data ex_manifest)) fast_hashes True) =
        pre @ (q, hs) # rest"
    "map_of (data ex_manifest) q = Some r" "ex_hasher ''md5'' (fullpath r) = Some v"
    "get_hash (hashes r) ''md5'' \<noteq> Some v"
    "check_fast ex_hasher ''rev'' True (ex_manifest, ex_world) = Exited 1 (m', w')"
    "stdout w' = stdout ex_world @ concat (map (recheck_ok_messages (path ex_manifest)) pre) @
                    [CheckFailed q hs, DiagPath q,
                     DiagHash ''md5'' v (get_hash (hashes r) ''md5'')]"
    "stderr w' = stderr ex_world @ [CannotReproduce (path ex_manifest)]"
    by (elim exE conjE) (rule that)
  then have "\<exists>pre q hs rest r v m' w'.
      snd (check_file ex_hasher ex_manifest (map fst (data ex_manifest)) fast_hashes True) =
        pre @ (q, hs) # rest \<and>
      map_of (data ex_manifest) q = Some r \<and> ex_hasher ''md5'' (fullpath r) = Some v \<and>
      get_hash (hashes r) ''md5'' \<noteq> Some v \<and>
      check_fast ex_hasher ''rev'' True (ex_manifest, ex_world) = Exited 1 (m', w') \<and>
      stdout w' = stdout ex_world @ concat (map (recheck_ok_messages (path ex_manifest)) pre) @
                    [CheckFailed q hs, DiagPath q,
                     DiagHash ''md5'' v (get_hash (hashes r) ''md5'')] \<and>
      stderr w' = stderr ex_world @ [CannotReproduce (path ex_manifest)]"
    by (intro exI conjI)
  with 1 2 show ?thesis by (intro conjI)
qed

text \<open>
  C2.  \<^verbatim>\<open>check_fast\<close> with \<^verbatim>\<open>reproduce=False\<close> on a document in which at least one path fails
  the fast check: the call returns, the manifest file on disk holds the header and data of the
  object, and every path that failed the fast check and whose full hash can be computed has
  that digest stored as its \<^verbatim>\<open>md5\<close> entry, whatever was stored before.
\<close>

theorem check_fast_lenient_updates:
  assumes "fast_failed H m p0"
  shows "\<exists>m' w'.
           check_fast H githash False (m, w) = Returned (m', w') \<and>
           persisted (m', w') \<and> path m' = path m \<and>
           (\<forall>p r d. fast_failed H m p \<and> map_of (data m) p = Some r \<and>
                    H ''md5'' (fullpath r) = Some d \<longrightarrow>
              (\<exists>r'. map_of (data m') p = Some r' \<and> fullpath r' = fullpath r \<and>
                    get_hash (hashes r') ''md5'' = Some d))"
proof -
  let ?hv = "snd (check_file H m (map fst (data m)) fast_hashes True)"
  let ?D = "save_hashvals ?hv (data m)"
  let ?m2 = "m\<lparr>data := add H ?D (map fst ?hv) full_hashes True False\<rparr>"
  let ?w2 = "w\<lparr>stdout := stdout w @ [UpdatingFull (length ?hv) (path m), Writing (path m)]\<rparr>"
  from assms have ne: "?hv \<noteq> []" by (auto simp: fast_failed_hashvals)
  have run: "check_fast H githash False (m, w) = Returned (dump githash (?m2, ?w2))"
    by (rule check_fast_unfold(2) [OF refl ne])
  have upd: "\<exists>r'. map_of (data ?m2) p = Some r' \<and> fullpath r' = fullpath r \<and>
                    get_hash (hashes r') ''md5'' = Some d"
    if p: "fast_failed H m p" and r: "map_of (data m) p = Some r"
      and d: "H ''md5'' (fullpath r) = Some d" for p r d
  proof -
    from saved_record [OF r, of H] obtain r1 where
      r1: "map_of ?D p = Some r1" "fullpath r1 = fullpath r" by blast
    from p have "p \<in> set (map fst ?hv)" by (simp add: fast_failed_def)
    with r1 d show ?thesis
      by (simp add: map_of_add [OF distinct_fast_hashvals] add_hashes_full get_hash_update)
  qed
  obtain m' w' where mw: "dump githash (?m2, ?w2) = (m', w')" by (cases "dump githash (?m2, ?w2)")
  then have "data m' = data ?m2" "path m' = path m"
    using dump_fields(1,2) [of githash ?m2 ?w2] by simp_all
  moreover have "persisted (m', w')" using persisted_dump [of githash ?m2 ?w2] mw by simp
  ultimately show ?thesis
    unfolding run mw using upd by (intro exI [of _ m'] exI [of _ w']) auto
qed

theorem check_fast_lenient_updates_witness:
  "fast_failed ex_hasher ex_manifest ''a.nc'' \<and>
   (\<exists>m' w'.
      check_fast ex_hasher ''rev'' False (ex_manifest, ex_world) = Returned (m', w') \<and>
      persisted (m', w') \<and> path m' = path ex_manifest \<and>
      (\<exists>r'. map_of (data m') ''b.nc'' = Some r' \<and> fullpath r' = ''/data/b.nc'' \<and>
            get_hash (hashes r') ''md5'' = Some ''mb2''))"
proof -
  have 1: "fast_failed ex_hasher ex_manifest ''a.nc''"
    by (simp add: fast_failed_iff ex_defs get_hash_def)
  have 2: "fast_failed ex_hasher ex_manifest ''b.nc'' \<and>
           map_of (data ex_manifest) ''b.nc'' = Some (ex_rec ''/data/b.nc'' ''bb'' ''mb'') \<and>
           ex_hasher ''md5'' (fullpath (ex_rec ''/data/b.nc'' ''bb'' ''mb'')) = Some ''mb2''"
    by (simp add: fast_failed_iff ex_defs get_hash_def)
  have 3: "fullpath (ex_rec ''/data/b.nc'' ''bb'' ''mb'') = ''/data/b.nc''"
    by (simp add: ex_defs)
  from check_fast_lenient_updates [OF 1, of "''rev''" ex_world] obtain m' w' where
    run: "check_fast ex_hasher ''rev'' False (ex_manifest, ex_world) = Returned (m', w')"
      "persisted (m', w')" "path m' = path ex_manifest"
    and all: "\<forall>p r d. fast_failed ex_hasher ex_manifest p \<and> map_of (data ex_manifest) p = Some r \<and>
                    ex_hasher ''md5'' (fullpath r) = Some d \<longrightarrow>
              (\<exists>r'. map_of (data m') p = Some r' \<and> fullpath r' = fullpath r \<and>
                    get_hash (hashes r') ''md5'' = Some d)"
    by blast
  from all [rule_format, OF 2] 3 have
    "\<exists>r'. map_of (data m') ''b.nc'' = Some r' \<and> fullpath r' = ''/data/b.nc'' \<and>
          get_hash (hashes r') ''md5'' = Some ''mb2''"
    by simp
  with 1 run show ?thesis by blast
qed

text \<open>
  C3.  \<^verbatim>\<open>check_fast\<close> with \<^verbatim>\<open>reproduce=True\<close>, for a path that fails the fast check while its
  full hash, computed again, is the stored one.  In the state in which the call ends, the
  fast-hash entry of the path is the digest computed now, and its full path, its copy flag and
  every entry of another hash kind, the full hash among them, are what they were; a path that
  did not fail the fast check has the entry it had.  When no failed path has a differing full
  hash, the call returns and the manifest file on disk holds the header and data of the object.
\<close>

theorem check_fast_reproduce_refreshes_fast:
  assumes "fast_failed H m p" and "\<not> full_differs H m p"
  shows "\<exists>m' w' r r' v.
           final_state (check_fast H githash True (m, w)) = (m', w') \<and>
           map_of (data m) p = Some r \<and> map_of (data m') p = Some r' \<and>
           H ''binhash'' (fullpath r) = Some v \<and> get_hash (hashes r') ''binhash'' = Some v \<and>
           (\<forall>h. h \<noteq> ''binhash'' \<longrightarrow> map_of (hashes r') h = map_of (hashes r) h) \<and>
           fullpath r' = fullpath r \<and> copy r' = copy r \<and>
           (\<forall>q. \<not> fast_failed H m q \<longrightarrow> map_of (data m') q = map_of (data m) q) \<and>
           ((\<forall>q. fast_failed H m q \<longrightarrow> \<not> full_differs H m q) \<longrightarrow>
              check_fast H githash True (m, w) = Returned (m', w') \<and> persisted (m', w'))"
proof -
  let ?hv = "snd (check_file H m (map fst (data m)) fast_hashes True)"
  let ?m = "m\<lparr>data := save_hashvals ?hv (data m)\<rparr>"
  from assms(1) have ne: "?hv \<noteq> []" by (auto simp: fast_failed_hashvals)
  have run: "check_fast H githash True (m, w) = reproduce_loop H githash ?hv (?m, w)"
    by (rule check_fast_unfold(1) [OF refl ne])
  have fc: "fast_current H (data ?m)" by (simp add: fast_current_saved)
  obtain m' w' where fin: "final_state (reproduce_loop H githash ?hv (?m, w)) = (m', w')"
    by (cases "final_state (reproduce_loop H githash ?hv (?m, w))")
  from loop_final [OF fc, of githash ?hv w] fin have D: "data m' = save_hashvals ?hv (data m)"
    by simp
  from assms(1) obtain r v where r: "map_of (data m) p = Some r"
    and v: "H ''binhash'' (fullpath r) = Some v"
    by (auto simp: fast_failed_iff)
  from saved_record [OF r, of H] v obtain r' where r': "map_of (data m') p = Some r'"
    "fullpath r' = fullpath r" "copy r' = copy r"
    "\<forall>h. h \<noteq> ''binhash'' \<longrightarrow> map_of (hashes r') h = map_of (hashes r) h"
    "get_hash (hashes r') ''binhash'' = Some v"
    unfolding D by blast
  have others: "\<forall>q. \<not> fast_failed H m q \<longrightarrow> map_of (data m') q = map_of (data m) q"
  proof (intro allI impI)
    fix q assume nf: "\<not> fast_failed H m q"
    show "map_of (data m') q = map_of (data m) q"
    proof (cases "map_of (data m) q")
      case None
      then show ?thesis unfolding D by (simp add: map_of_saved)
    next
      case (Some rq)
      from saved_record [OF Some, of H] nf Some show ?thesis unfolding D by auto
    qed
  qed
  have completes: "check_fast H githash True (m, w) = Returned (m', w') \<and> persisted (m', w')"
    if all: "\<forall>q. fast_failed H m q \<longrightarrow> \<not> full_differs H m q"
  proof -
    from all have "\<forall>q\<in>fst ` set ?hv. \<not> full_differs H ?m q"
      by (simp add: fast_failed_hashvals full_differs_saved)
    from loop_returns [OF fc this, of githash w] ne obtain m2 w2 where
      "reproduce_loop H githash ?hv (?m, w) = Returned (m2, w2)" "persisted (m2, w2)"
      by blast
    with fin show ?thesis unfolding run by simp
  qed
  show ?thesis
    apply (rule exI [of _ m'], rule exI [of _ w'], rule exI [of _ r], rule exI [of _ r'],
        rule exI [of _ v])
    using fin r r' v others completes by (simp add: run)
qed

theorem check_fast_reproduce_refreshes_fast_witness:
  "fast_failed ex_hasher ex_manifest_ok ''a.nc'' \<and>
   \<not> full_differs ex_hasher ex_manifest_ok ''a.nc'' \<and>
   (\<exists>m' w' r'.
      check_fast ex_hasher ''rev'' True (ex_manifest_ok, ex_world) = Returned (m', w') \<and>
      persisted (m', w') \<and>
      map_of (data m') ''a.nc'' = Some r' \<and>
      get_hash (hashes r') ''binhash'' = Some ''cd34'' \<and>
      map_of (hashes r') ''md5'' = Some (Some ''ma''))"
proof -
  have 1: "fast_failed ex_hasher ex_manifest_ok ''a.nc''"
    by (simp add: fast_failed_iff ex_defs get_hash_def)
  have 2: "\<not> full_differs ex_hasher ex_manifest_ok ''a.nc''"
    by (simp add: full_differs_iff ex_defs get_hash_def)
  have 3: "\<forall>q. fast_failed ex_hasher ex_manifest_ok q \<longrightarrow> \<not> full_differs ex_hasher ex_manifest_ok q"
    by (simp add: fast_failed_iff full_differs_iff ex_defs get_hash_def)
  have 4: "map_of (data ex_manifest_ok) ''a.nc'' = Some (ex_rec ''/data/a.nc'' ''ab12'' ''ma'')"
    by (simp add: ex_defs)
  from check_fast_reproduce_refreshes_fast [OF 1 2, of "''rev''" ex_world]
  obtain m' w' r r' v where
    fin: "map_of (data ex_manifest_ok) ''a.nc'' = Some r" "map_of (data m') ''a.nc'' = Some r'"
      "ex_hasher ''binhash'' (fullpath r) = Some v" "get_hash (hashes r') ''binhash'' = Some v"
    and frame: "\<forall>h. h \<noteq> ''binhash'' \<longrightarrow> map_of (hashes r') h = map_of (hashes r) h"
    and ret: "(\<forall>q. fast_failed ex_hasher ex_manifest_ok q \<longrightarrow>
                   \<not> full_differs ex_hasher ex_manifest_ok q) \<longrightarrow>
              check_fast ex_hasher ''rev'' True (ex_manifest_ok, ex_world) = Returned (m', w') \<and>
              persisted (m', w')"
    by (elim exE conjE) (rule that)
  from fin(1) 4 have r: "r = ex_rec ''/data/a.nc'' ''ab12'' ''ma''" by simp
  from fin(3) have v: "v = ''cd34''" unfolding r by (simp add: ex_defs)
  from frame [rule_format, of "''md5''"] have "map_of (hashes r') ''md5'' = Some (Some ''ma'')"
    unfolding r by (simp add: ex_defs)
  moreover from ret 3 have "check_fast ex_hasher ''rev'' True (ex_manifest_ok, ex_world) = Returned (m', w')"
    "persisted (m', w')" by simp_all
  ultimately show ?thesis using fin(2,4) v 1 2 3 by (intro conjI exI [of _ m'] exI [of _ w'] exI [of _ r']) simp_all
qed

text \<open>
  C4.  \<^verbatim>\<open>Manifest.setup\<close> with \<^verbatim>\<open>reproduce=True\<close>.  When the restart manifest loads empty, the
  process exits with status 1 after the message that it cannot be empty.  When the input
  manifest is not present and non-empty (and the flag of the object is not yet set, as after
  \<^verbatim>\<open>__init__\<close>), the call fails fatally; so it does when executables are to be reproduced and
  the executable manifest is not present and non-empty.  In each case the working area has no
  link or copy that was not there before.
\<close>

theorem setup_reproduce_requirements:
  assumes "reproduce M"
  shows "(\<forall>h. fs w (path (restart_manifest M)) = Some (h, []) \<longrightarrow>
            (\<exists>M' w'. manifest_setup (M, w) = Some (Exited 1 (M', w')) \<and>
                     last (stdout w') = RestartEmpty \<and> links w' = links w)) \<and>
         (\<not> have_input_manifest M \<and> \<not> present_nonempty w (path (input_manifest M)) \<longrightarrow>
            (\<exists>out. manifest_setup (M, w) = Some out \<and> is_fatal out \<and>
                   links (snd (final_state out)) = links w)) \<and>
         (reproduce_exe M \<and> \<not> have_exe_manifest M \<and>
          \<not> present_nonempty w (path (exe_manifest M)) \<longrightarrow>
            (\<exists>out. manifest_setup (M, w) = Some out \<and> is_fatal out \<and>
                   links (snd (final_state out)) = links w))"
proof -
  from setup_loads [of M w] obtain M2 w2 where
    run: "manifest_setup (M, w) =
       (if reproduce M then
          (case setup_reproduce (M2, w2) of
             Returned (M3, w3) \<Rightarrow>
               (case restart_inference w3 (restart_manifest M3) (expt M3) of
                  None \<Rightarrow> None
                | Some e \<Rightarrow> Some (Returned (M3\<lparr>expt := e\<rparr>, w3)))
           | other \<Rightarrow> Some other)
        else Some (Returned (M2\<lparr>have_restart_manifest := False\<rparr>, w2)))"
    and fr: "fs w2 = fs w" "links w2 = links w" "reproduce_exe M2 = reproduce_exe M"
      "restart_manifest M2 = restart_manifest M"
    and inp: "have_input_manifest M2 \<longrightarrow>
        have_input_manifest M \<or> present_nonempty w (path (input_manifest M))"
    and exe: "have_exe_manifest M2 \<longrightarrow>
        have_exe_manifest M \<or> present_nonempty w (path (exe_manifest M))"
    by (elim exE conjE) (rule that)
  have a: "\<exists>M' w'. manifest_setup (M, w) = Some (Exited 1 (M', w')) \<and>
                     last (stdout w') = RestartEmpty \<and> links w' = links w"
    if "fs w (path (restart_manifest M)) = Some (h, [])" for h
  proof -
    from that have "fs w2 (path (restart_manifest M2)) = Some (h, [])" by (simp add: fr)
    from setup_reproduce_empty [OF this] obtain M' w' where
      e: "setup_reproduce (M2, w2) = Exited 1 (M', w')" "last (stdout w') = RestartEmpty"
        "links w' = links w2"
      by blast
    then have "is_fatal (setup_reproduce (M2, w2))" by simp
    from setup_fatal [OF assms run this] e fr show ?thesis by simp
  qed
  have b: "\<exists>out. manifest_setup (M, w) = Some out \<and> is_fatal out \<and>
                   links (snd (final_state out)) = links w"
    if "\<not> have_input_manifest M" "\<not> present_nonempty w (path (input_manifest M))"
  proof -
    from that inp have "\<not> have_input_manifest M2" by blast
    then have f: "is_fatal (setup_reproduce (M2, w2))" by (rule setup_reproduce_no_input)
    from setup_fatal [OF assms run f] f setup_reproduce_links [of M2 w2] fr show ?thesis
      by simp
  qed
  have c: "\<exists>out. manifest_setup (M, w) = Some out \<and> is_fatal out \<and>
                   links (snd (final_state out)) = links w"
    if "reproduce_exe M" "\<not> have_exe_manifest M" "\<not> present_nonempty w (path (exe_manifest M))"
  proof -
    from that exe fr have "reproduce_exe M2" "\<not> have_exe_manifest M2" by auto
    then have f: "is_fatal (setup_reproduce (M2, w2))" by (rule setup_reproduce_no_exe)
    from setup_fatal [OF assms run f] f setup_reproduce_links [of M2 w2] fr show ?thesis
      by simp
  qed
  from a b c show ?thesis by blast
qed

theorem setup_reproduce_requirements_witness:
  "reproduce (Manifest_init ex_expt True) \<and>
   fs ex_world_empty_restart (path (restart_manifest (Manifest_init ex_expt True))) = Some ([], []) \<and>
   \<not> have_input_manifest (Manifest_init ex_expt True) \<and>
   \<not> present_nonempty ex_world_empty_restart (path (input_manifest (Manifest_init ex_expt True))) \<and>
   reproduce_exe (Manifest_init ex_expt True) \<and>
   \<not> have_exe_manifest (Manifest_init ex_expt True) \<and>
   \<not> present_nonempty ex_world_empty_restart (path (exe_manifest (Manifest_init ex_expt True))) \<and>
   (\<exists>M' w'. manifest_setup (Manifest_init ex_expt True, ex_world_empty_restart) =
              Some (Exited 1 (M', w')) \<and>
            last (stdout w') = RestartEmpty \<and> links w' = links ex_world_empty_restart)"
proof -
  have 1: "reproduce (Manifest_init ex_expt True)"
    by (simp add: Manifest_init_def Let_def)
  have 2: "fs ex_world_empty_restart (path (restart_manifest (Manifest_init ex_expt True))) =
             Some ([], [])"
    by (simp add: Manifest_init_def Let_def PayuManifest_def ex_world_empty_restart_def)
  have 3: "\<not> have_input_manifest (Manifest_init ex_expt True) \<and>
   \<not> present_nonempty ex_world_empty_restart (path (input_manifest (Manifest_init ex_expt True))) \<and>
   reproduce_exe (Manifest_init ex_expt True) \<and>
   \<not> have_exe_manifest (Manifest_init ex_expt True) \<and>
   \<not> present_nonempty ex_world_empty_restart (path (exe_manifest (Manifest_init ex_expt True)))"
    by (simp add: Manifest_init_def Let_def PayuManifest_def ex_world_empty_restart_def
          present_nonempty_def ex_expt_def)
  from setup_reproduce_requirements [OF 1, of ex_world_empty_restart] 2
  have "\<exists>M' w'. manifest_setup (Manifest_init ex_expt True, ex_world_empty_restart) =
              Some (Exited 1 (M', w')) \<and>
            last (stdout w') = RestartEmpty \<and> links w' = links ex_world_empty_restart"
    by blast
  with 1 2 3 show ?thesis by simp
qed

text \<open>
  C5.  The claim is that the scan of the restart paths stops at the first path whose walk gives
  a number, so that this first number decides the counter.  The loop is left only when the
  counter is zero after a walk (line 269), against the comment above that line.  With the two
  restart files below, the first under \<^verbatim>\<open>restart003\<close> and the second under \<^verbatim>\<open>restart007\<close>,
  both walks give their number and \<^verbatim>\<open>setup\<close> returns with the counter at 8, not at 4.
\<close>

theorem restart_inference_last_value_wins:
  "walk (dirname ''/archive/restart003/ocean.res.nc'') = Some 3 \<and>
   walk (dirname ''/archive/restart007/ice.res.nc'') = Some 7 \<and>
   (\<exists>M w. manifest_setup
            (Manifest_init ex_expt True,
             ex_world_restart [(''ocean.res.nc'', ''/archive/restart003/ocean.res.nc''),
                               (''ice.res.nc'', ''/archive/restart007/ice.res.nc'')]) =
            Some (Returned (M, w)) \<and>
          counter (expt M) = 8)"
proof -
  have 1: "walk (dirname ''/archive/restart003/ocean.res.nc'') = Some 3" by code_simp
  have 2: "walk (dirname ''/archive/restart007/ice.res.nc'') = Some 7" by code_simp
  have "\<exists>M w. manifest_setup
            (Manifest_init ex_expt True,
             ex_world_restart [(''ocean.res.nc'', ''/archive/restart003/ocean.res.nc''),
                               (''ice.res.nc'', ''/archive/restart007/ice.res.nc'')]) =
            Some (Returned (M, w)) \<and>
          counter (expt M) = 8"
    by (simp add: setup_defs restart_inference_def 1 2)
  with 1 2 show ?thesis by simp
qed

text \<open>
  C6.  The claim is that the walk up the directories of a restart path ends also when no
  directory name starts with \<^verbatim>\<open>restart\<close>.  The loop of lines 257 to 266 has no exit but the
  one after a number was read: for the file \<^verbatim>\<open>/scratch/work/ocean.nc\<close> the walk goes from
  \<^verbatim>\<open>/scratch/work\<close> to \<^verbatim>\<open>/scratch\<close> to \<^verbatim>\<open>/\<close> and stays there, so that it gives no result and
  \<^verbatim>\<open>setup\<close> never returns.
\<close>

theorem walk_without_restart_dir_never_ends:
  "dirname ''/scratch/work/ocean.nc'' = ''/scratch/work'' \<and>
   walk ''/scratch/work'' = None \<and>
   manifest_setup (Manifest_init ex_expt True,
                   ex_world_restart [(''ocean.nc'', ''/scratch/work/ocean.nc'')]) = None"
proof -
  have d: "dirname ''/scratch/work/ocean.nc'' = ''/scratch/work''"
    by (simp add: dirname_def os_path_split_def rfind_def rstrip_def Let_def)
  have w: "walk ''/scratch/work'' = None"
    using walk_stays_above [of "''/scratch/work''"] by (cases "walk ''/scratch/work''") auto
  have "manifest_setup (Manifest_init ex_expt True,
                   ex_world_restart [(''ocean.nc'', ''/scratch/work/ocean.nc'')]) = None"
    by (simp add: manifest_setup_def setup_load_input_def setup_load_exe_def setup_reproduce_def
          restart_inference_def load_def path_exists_def print_def Let_def Manifest_init_def
          PayuManifest_def ex_world_restart_def ex_restart_data_def ex_expt_def ex_rec_def d w)
  with d w show ?thesis by simp
qed

text \<open>
  C7, as stated: a restart path with a directory \<^verbatim>\<open>restart003\<close> above it makes the counter 4.
  The walk stops at the nearest directory above the file whose name is \<^verbatim>\<open>restart\<close> and a
  number, so a \<^verbatim>\<open>restart010\<close> below \<^verbatim>\<open>restart003\<close> makes the counter 11.
\<close>

theorem restart_inference_nested_counterexample:
  "has_ancestor_dir ''/archive/restart003/restart010/ocean.res.nc'' ''restart003'' \<and>
   environ (ex_world_restart []) ''PAYU_CURRENT_RUN'' = None \<and>
   map_option counter
     (restart_inference (ex_world_restart [])
        \<lparr>path = ''manifests/restart.yaml'', header = [],
         data = ex_restart_data
                  [(''ocean.res.nc'', ''/archive/restart003/restart010/ocean.res.nc'')],
         ignore = [''.*'']\<rparr>
        ex_expt) = Some 11"
proof -
  have 1: "has_ancestor_dir ''/archive/restart003/restart010/ocean.res.nc'' ''restart003''"
    by (simp add: has_ancestor_dir_def)
  have 2: "walk (dirname ''/archive/restart003/restart010/ocean.res.nc'') = Some 10" by code_simp
  show ?thesis
    using 1 by (simp add: restart_inference_def ex_world_restart_def ex_restart_data_def
        ex_rec_def ex_expt_def 2)
qed

text \<open>
  C7, amended.  Without \<^verbatim>\<open>PAYU_CURRENT_RUN\<close> (unset or empty), for a restart manifest that is
  not empty and in which every full path is \<^verbatim>\<open>base/restart003/d1/.../dk/file\<close>, where no
  directory \<^verbatim>\<open>di\<close> between \<^verbatim>\<open>restart003\<close> and the file is one at which the walk stops, the
  restart inference ends with the counter at 4.  The walk stops at a name that starts with
  \<^verbatim>\<open>restart\<close> and that \<^verbatim>\<open>int\<close> accepts once \<^verbatim>\<open>lstrip('restart')\<close> has removed its leading
  characters among r, e, s, t and a: \<^verbatim>\<open>restart010\<close> is such a name, and so is \<^verbatim>\<open>restarter12\<close>,
  of which \<^verbatim>\<open>12\<close> is left.
\<close>

theorem restart_inference_restart003:
  assumes "environ w ''PAYU_CURRENT_RUN'' = None \<or> environ w ''PAYU_CURRENT_RUN'' = Some []"
    and "data rm \<noteq> []"
    and "\<forall>(p, r)\<in>set (data rm).
           \<exists>base dirs fname.
             fullpath r = base @ ''/restart003'' @ concat (map (\<lambda>d. CHR ''/'' # d) dirs) @
                            CHR ''/'' # fname \<and>
             CHR ''/'' \<notin> set fname \<and>
             (\<forall>d\<in>set dirs. d \<noteq> [] \<and> CHR ''/'' \<notin> set d \<and> \<not> is_restart_dir d)"
  shows "restart_inference w rm e = Some (e\<lparr>counter := 4\<rparr>)"
proof -
  have "\<exists>r. map_of (data rm) p = Some r \<and> walk (dirname (fullpath r)) = Some 3"
    if "p \<in> set (map fst (data rm))" for p
  proof -
    from that obtain r where r: "map_of (data rm) p = Some r"
      by (cases "map_of (data rm) p") (auto simp: map_of_eq_None_iff)
    then have "(p, r) \<in> set (data rm)" by (rule map_of_SomeD)
    with assms(3) obtain base dirs fname where
      fp: "fullpath r = base @ ''/restart003'' @ concat (map (\<lambda>d. CHR ''/'' # d) dirs) @
                            CHR ''/'' # fname"
      and f: "CHR ''/'' \<notin> set fname"
      and d: "\<forall>d\<in>set dirs. d \<noteq> [] \<and> CHR ''/'' \<notin> set d \<and> \<not> is_restart_dir d"
      by blast
    from d have d': "\<forall>d\<in>set dirs. d \<noteq> [] \<and> CHR ''/'' \<notin> set d" by blast
    have "walk (dirname (fullpath r)) = Some 3"
      unfolding fp dirname_below_restart003 [OF d' f] by (rule walk_below_restart003 [OF d])
    with r show ?thesis by simp
  qed
  then have "scan_restarts rm (map fst (data rm)) e = Some (e\<lparr>counter := 4\<rparr>)"
    using assms(2) by (intro scan_all_three) auto
  with assms(1) show ?thesis by (auto simp: restart_inference_def)
qed

theorem restart_inference_restart003_witness:
  "has_ancestor_dir ''/archive/restart003/ocean/ocean.res.nc'' ''restart003'' \<and>
   environ (ex_world_restart []) ''PAYU_CURRENT_RUN'' = None \<and>
   restart_inference (ex_world_restart [])
      \<lparr>path = ''manifests/restart.yaml'', header = [],
       data = ex_restart_data [(''ocean.res.nc'', ''/archive/restart003/ocean/ocean.res.nc'')],
       ignore = [''.*'']\<rparr>
      ex_expt = Some (ex_expt\<lparr>counter := 4\<rparr>)"
proof -
  let ?rm = "\<lparr>path = ''manifests/restart.yaml'', header = [],
       data = ex_restart_data [(''ocean.res.nc'', ''/archive/restart003/ocean/ocean.res.nc'')],
       ignore = [''.*'']\<rparr>"
  have 1: "environ (ex_world_restart []) ''PAYU_CURRENT_RUN'' = None \<or>
           environ (ex_world_restart []) ''PAYU_CURRENT_RUN'' = Some []"
    by (simp add: ex_world_restart_def)
  have 2: "data ?rm \<noteq> []" by (simp add: ex_restart_data_def)
  have nr: "\<not> is_restart_dir ''ocean''" by (simp add: is_restart_dir_def startswith_def)
  have d: "data ?rm =
      [(''ocean.res.nc'', ex_rec ''/archive/restart003/ocean/ocean.res.nc'' ''b'' ''f'')]"
    by (simp add: ex_restart_data_def)
  have ex: "\<exists>base dirs fname.
             fullpath (ex_rec ''/archive/restart003/ocean/ocean.res.nc'' ''b'' ''f'') =
               base @ ''/restart003'' @ concat (map (\<lambda>d. CHR ''/'' # d) dirs) @
                            CHR ''/'' # fname \<and>
             CHR ''/'' \<notin> set fname \<and>
             (\<forall>d\<in>set dirs. d \<noteq> [] \<and> CHR ''/'' \<notin> set d \<and> \<not> is_restart_dir d)"
    apply (rule exI [of _ "''/archive''"], rule exI [of _ "[''ocean'']"],
        rule exI [of _ "''ocean.res.nc''"])
    using nr by (simp add: ex_rec_def)
  have 3: "\<forall>(p, r)\<in>set (data ?rm).
           \<exists>base dirs fname.
             fullpath r = base @ ''/restart003'' @ concat (map (\<lambda>d. CHR ''/'' # d) dirs) @
                            CHR ''/'' # fname \<and>
             CHR ''/'' \<notin> set fname \<and>
             (\<forall>d\<in>set dirs. d \<noteq> [] \<and> CHR ''/'' \<notin> set d \<and> \<not> is_restart_dir d)"
    unfolding d using ex by (simp only: list.set ball_simps prod.case)
  have 4: "has_ancestor_dir ''/archive/restart003/ocean/ocean.res.nc'' ''restart003''"
    by (simp add: has_ancestor_dir_def)
  from restart_inference_restart003 [OF 1 2 3, of ex_expt] 4 show ?thesis
    by (simp add: ex_world_restart_def)
qed

text \<open>
  C8.  \<^verbatim>\<open>check_fast\<close> with \<^verbatim>\<open>reproduce=True\<close>, when \<^verbatim>\<open>hashvals\<close> starts with a path \<open>p\<close>
  whose full hash still matches.  The loop over the failed paths starts on a document in which
  every digest observed by the fast check is already stored, for every failed path.  As the
  recheck of \<open>p\<close> succeeds and dumps the manifest, the file on disk at the end of the call,
  however it ends, holds the observed fast hashes of all failed paths, also of those whose full
  hash has not been checked or differs.  (The loop dumps the manifest exactly when the first
  failed path passes its recheck: a first path that does not pass ends the process.)
\<close>

theorem check_fast_saves_fast_hashes_first:
  assumes "snd (check_file H m (map fst (data m)) fast_hashes True) = (p, hs) # rest"
    and "\<not> full_differs H m p"
  shows "check_fast H githash True (m, w) =
           reproduce_loop H githash ((p, hs) # rest)
             (m\<lparr>data := save_hashvals ((p, hs) # rest) (data m)\<rparr>, w) \<and>
         (\<forall>q hsq h v. (q, hsq) \<in> set ((p, hs) # rest) \<and> (h, v) \<in> set hsq \<longrightarrow>
            stored_hash (m\<lparr>data := save_hashvals ((p, hs) # rest) (data m)\<rparr>) q h = Some v) \<and>
         (\<exists>m' w' hdr d.
            final_state (check_fast H githash True (m, w)) = (m', w') \<and>
            fs w' (path m) = Some (hdr, d) \<and>
            (\<forall>q hsq h v. (q, hsq) \<in> set ((p, hs) # rest) \<and> (h, v) \<in> set hsq \<longrightarrow>
               (\<exists>r'. map_of d q = Some r' \<and> get_hash (hashes r') h = Some v)))"
proof -
  let ?hv = "snd (check_file H m (map fst (data m)) fast_hashes True)"
  let ?D = "save_hashvals ?hv (data m)"
  let ?m = "m\<lparr>data := ?D\<rparr>"
  have hv: "?hv = (p, hs) # rest" by (rule assms(1))
  then have ne: "?hv \<noteq> []" by simp
  have run: "check_fast H githash True (m, w) = reproduce_loop H githash ?hv (?m, w)"
    by (rule check_fast_unfold(1) [OF refl ne])
  have fc: "fast_current H (data ?m)" by (simp add: fast_current_saved)
  have saved: "\<exists>r'. map_of ?D q = Some r' \<and> get_hash (hashes r') h = Some v"
    if "(q, hsq) \<in> set ?hv" "(h, v) \<in> set hsq" for q hsq h v
  proof -
    from hashvals_entry [OF that] obtain r where r: "map_of (data m) q = Some r"
      "h = ''binhash''" "H ''binhash'' (fullpath r) = Some v"
      by blast
    from saved_record [OF r(1), of H] r(2,3) show ?thesis by auto
  qed
  have nd: "\<not> full_differs H ?m p" using assms(2) by (simp add: full_differs_saved)
  obtain m' w' where fin: "final_state (reproduce_loop H githash ?hv (?m, w)) = (m', w')"
    by (cases "final_state (reproduce_loop H githash ?hv (?m, w))")
  from loop_final [OF fc, of githash ?hv w] fin have D: "data m' = ?D" "path m' = path m"
    by simp_all
  from loop_first_ok_persisted [OF fc nd, of githash hs rest w] fin
  have pers: "fs w' (path m) = Some (header m', ?D)"
    unfolding hv [symmetric] by (simp add: persisted_def D)
  have 1: "check_fast H githash True (m, w) = reproduce_loop H githash ?hv (?m, w)"
    by (rule run)
  have 2: "\<forall>q hsq h v. (q, hsq) \<in> set ?hv \<and> (h, v) \<in> set hsq \<longrightarrow>
            stored_hash ?m q h = Some v"
  proof (intro allI impI, elim conjE)
    fix q hsq h v
    assume "(q, hsq) \<in> set ?hv" "(h, v) \<in> set hsq"
    from saved [OF this] show "stored_hash ?m q h = Some v"
      by (auto simp: stored_hash_def)
  qed
  have 3: "\<exists>m' w' hdr d.
            final_state (check_fast H githash True (m, w)) = (m', w') \<and>
            fs w' (path m) = Some (hdr, d) \<and>
            (\<forall>q hsq h v. (q, hsq) \<in> set ?hv \<and> (h, v) \<in> set hsq \<longrightarrow>
               (\<exists>r'. map_of d q = Some r' \<and> get_hash (hashes r') h = Some v))"
  proof (intro exI conjI)
    show "final_state (check_fast H githash True (m, w)) = (m', w')"
      using fin by (simp only: run)
    show "fs w' (path m) = Some (header m', ?D)" by (rule pers)
    show "\<forall>q hsq h v. (q, hsq) \<in> set ?hv \<and> (h, v) \<in> set hsq \<longrightarrow>
               (\<exists>r'. map_of ?D q = Some r' \<and> get_hash (hashes r') h = Some v)"
      using saved by blast
  qed
  from 1 2 3 show ?thesis unfolding hv by (intro conjI)
qed

theorem check_fast_saves_fast_hashes_first_witness:
  "snd (check_file ex_hasher ex_manifest (map fst (data ex_manifest)) fast_hashes True) =
     (''a.nc'', [(''binhash'', ''cd34'')]) # [(''b.nc'', [(''binhash'', ''bb2'')])] \<and>
   \<not> full_differs ex_hasher ex_manifest ''a.nc'' \<and>
   full_differs ex_hasher ex_manifest ''b.nc'' \<and>
   (\<exists>m' w' hdr d r'.
      final_state (check_fast ex_hasher ''rev'' True (ex_manifest, ex_world)) = (m', w') \<and>
      fs w' (path ex_manifest) = Some (hdr, d) \<and>
      map_of d ''b.nc'' = Some r' \<and> get_hash (hashes r') ''binhash'' = Some ''bb2'')"
proof -
  have 1: "snd (check_file ex_hasher ex_manifest (map fst (data ex_manifest)) fast_hashes True) =
     (''a.nc'', [(''binhash'', ''cd34'')]) # [(''b.nc'', [(''binhash'', ''bb2'')])]"
    by (simp add: check_file_def Let_def ex_defs fast_hashes_def hashes_agree_def get_hash_def)
  have 2: "\<not> full_differs ex_hasher ex_manifest ''a.nc''"
    by (simp add: full_differs_iff ex_defs get_hash_def)
  have 3: "full_differs ex_hasher ex_manifest ''b.nc''"
    by (simp add: full_differs_iff ex_defs get_hash_def)
  from check_fast_saves_fast_hashes_first [OF 1 2, of "''rev''" ex_world]
  obtain m' w' hdr d where
    fin: "final_state (check_fast ex_hasher ''rev'' True (ex_manifest, ex_world)) = (m', w')"
      "fs w' (path ex_manifest) = Some (hdr, d)"
    and all: "\<forall>q hsq h v. (q, hsq) \<in> set ((''a.nc'', [(''binhash'', ''cd34'')]) #
                                           [(''b.nc'', [(''binhash'', ''bb2'')])]) \<and>
                         (h, v) \<in> set hsq \<longrightarrow>
               (\<exists>r'. map_of d q = Some r' \<and> get_hash (hashes r') h = Some v)"
    by (elim exE conjE) (rule that)
  from all [rule_format, of "''b.nc''" "[(''binhash'', ''bb2'')]" "''binhash''" "''bb2''"]
  obtain r' where "map_of d ''b.nc'' = Some r'" "get_hash (hashes r') ''binhash'' = Some ''bb2''"
    by auto
  with fin 1 2 3 show ?thesis
    by (intro conjI exI [of _ m'] exI [of _ w'] exI [of _ hdr] exI [of _ d] exI [of _ r']) simp_all
qed

text \<open>
  C9.  \<^verbatim>\<open>add_filepath\<close> for a full path that is a directory, or whose base name matches one
  of the ignore patterns, leaves the manifest as it was; the function has no error result.
  Otherwise the document holds an entry for the path with the given full path, whose digests
  are those it had, or all \<^verbatim>\<open>None\<close> for a new entry, so no hash is computed; the other
  entries, the path, the header and the patterns of the manifest stay.
\<close>

theorem add_filepath_skips_or_registers:
  "(isdir fp \<or> (\<exists>pattern\<in>set (ignore m). fnmatch (basename fp) pattern) \<longrightarrow>
      add_filepath isdir fnmatch m filepath fp cp = m) \<and>
   (\<not> isdir fp \<and> (\<forall>pattern\<in>set (ignore m). \<not> fnmatch (basename fp) pattern) \<longrightarrow>
      (\<exists>r. map_of (data (add_filepath isdir fnmatch m filepath fp cp)) filepath = Some r \<and>
           fullpath r = fp \<and>
           hashes r = (case map_of (data m) filepath of
                         None \<Rightarrow> map (\<lambda>h. (h, None)) all_hashes
                       | Some r0 \<Rightarrow> hashes r0) \<and>
           copy r = (if cp then Some True
                     else case map_of (data m) filepath of None \<Rightarrow> None | Some r0 \<Rightarrow> copy r0)) \<and>
      (\<forall>q. q \<noteq> filepath \<longrightarrow>
           map_of (data (add_filepath isdir fnmatch m filepath fp cp)) q = map_of (data m) q) \<and>
      path (add_filepath isdir fnmatch m filepath fp cp) = path m \<and>
      header (add_filepath isdir fnmatch m filepath fp cp) = header m \<and>
      ignore (add_filepath isdir fnmatch m filepath fp cp) = ignore m)"
  by (auto simp: add_filepath_def ignored_iff Let_def update_conv' split: option.splits)

theorem add_filepath_skips_or_registers_witness:
  "add_filepath (\<lambda>p. p = ''/data/sub'') (\<lambda>name pat. pat = ''.*'' \<and> take 1 name = ''.'')
     (PayuManifest ''manifests/input.yaml'' [''.*'']) ''sub'' ''/data/sub'' False
     = PayuManifest ''manifests/input.yaml'' [''.*''] \<and>
   add_filepath (\<lambda>p. p = ''/data/sub'') (\<lambda>name pat. pat = ''.*'' \<and> take 1 name = ''.'')
     (PayuManifest ''manifests/input.yaml'' [''.*'']) ''.hidden'' ''/data/.hidden'' False
     = PayuManifest ''manifests/input.yaml'' [''.*''] \<and>
   (\<exists>r. map_of (data (add_filepath (\<lambda>p. p = ''/data/sub'')
                        (\<lambda>name pat. pat = ''.*'' \<and> take 1 name = ''.'')
                        (PayuManifest ''manifests/input.yaml'' [''.*''])
                        ''a.nc'' ''/data/a.nc'' False)) ''a.nc'' = Some r \<and>
        fullpath r = ''/data/a.nc'' \<and>
        hashes r = [(''binhash'', None), (''md5'', None)])"
  using
    add_filepath_skips_or_registers
      [of "\<lambda>p. p = ''/data/sub''" "''/data/sub''" "PayuManifest ''manifests/input.yaml'' [''.*'']"
          "\<lambda>name pat. pat = ''.*'' \<and> take 1 name = ''.''" "''sub''" False]
    add_filepath_skips_or_registers
      [of "\<lambda>p. p = ''/data/sub''" "''/data/.hidden''" "PayuManifest ''manifests/input.yaml'' [''.*'']"
          "\<lambda>name pat. pat = ''.*'' \<and> take 1 name = ''.''" "''.hidden''" False]
    add_filepath_skips_or_registers
      [of "\<lambda>p. p = ''/data/sub''" "''/data/a.nc''" "PayuManifest ''manifests/input.yaml'' [''.*'']"
          "\<lambda>name pat. pat = ''.*'' \<and> take 1 name = ''.''" "''a.nc''" False]
  by (auto simp: PayuManifest_def basename_def rfind_def all_hashes_def fast_hashes_def full_hashes_def)

text \<open>
  C10.  For every document and every path, \<^verbatim>\<open>copy_file\<close> returns a flag and never raises:
  false when the path is not in the document or its entry has no \<^verbatim>\<open>'copy'\<close> key, the stored
  flag otherwise.
\<close>

theorem copy_file_never_raises:
  "copy_file m filepath =
     Inr (case map_of (data m) filepath of
            None \<Rightarrow> False
          | Some r \<Rightarrow> (case copy r of None \<Rightarrow> False | Some b \<Rightarrow> b))"
  by (simp add: copy_file_def getitem_def getitem_copy_def split: option.splits)

end
